theory Spec2Isabelle
  imports Main "HOL-Library.AList" "HOL-Library.Sublist" "HOL-Library.Multiset"
    "HOL-Library.Char_ord" "HOL-Library.List_Lexorder" "HOL-Library.Product_Lexorder"
begin

section \<open>The study planner engine of \<open>study_planner.py\<close>\<close>

text \<open>
  Conventions of the embedding.
  \<^item> Python's unbounded integers are \<open>int\<close>; \<open>None\<close> in an optional field is \<open>None\<close>.
  \<^item> A Python text is the \<open>string\<close> of its UTF-8 encoding, so that an ASCII character is
    one \<open>char\<close>. Equality, concatenation, the order of texts and the test \<open>a in b\<close>
    (\<open>sublist\<close>) are the same on the encoding. The operations that look at characters
    (\<open>int\<close>, \<open>fromisoformat\<close>, \<open>set\<close> of a text, \<open>lower\<close>) are embedded on ASCII
    text, \<open>lower\<close> also on the Greek alphabet; on other text they are \<open>Unmodelled\<close>.
  \<^item> A Python \<open>dict\<close> is an association list in insertion order:
    \<open>d[k] = v\<close> is \<open>AList.update k v\<close> (in place for a key that is present, at the
    end for a new one), \<open>d.pop(k)\<close> is \<open>AList.delete k\<close>, \<open>d.get(k)\<close> is
    \<open>map_of d k\<close>, \<open>d.items()\<close> is the list itself. A dict holds every key once.
  \<^item> The \<open>set\<close> of achievement names is a list of its elements in iteration order;
    it is only read through \<open>set\<close>.
  \<^item> The clock \<open>datetime.datetime.now().isoformat()\<close> is a parameter \<open>now\<close>.
  \<^item> The file \<open>DATA_FILE\<close> is the field \<open>disk\<close> of the planner state. In the
    operations on tasks the write of \<open>save\<close> succeeds. For \<open>load\<close>, which is considered
    on every condition of the storage, the outcome of a write is a parameter
    (\<open>load_env\<close>), and \<open>load\<close> is \<open>load_env\<close> where the file can be written.
\<close>

subsection \<open>Values of the interpreter\<close>

datatype exc = KeyError | ValueError | TypeError | AttributeError | OSError

text \<open>
  The result of code that may raise. \<open>Unmodelled\<close> says that the typed embedding has
  no answer at this input (Python goes on with a value that the typed records cannot hold,
  or parses a text form that is not embedded); nothing is claimed there.
\<close>

datatype 'a outcome = Ok 'a | Raises exc | Unmodelled

definition obind :: "'a outcome \<Rightarrow> ('a \<Rightarrow> 'b outcome) \<Rightarrow> 'b outcome" where
  "obind m f = (case m of Ok x \<Rightarrow> f x | Raises e \<Rightarrow> Raises e | Unmodelled \<Rightarrow> Unmodelled)"

text \<open>
  What \<open>json.load\<close> returns: \<open>None\<close>, integers, strings, lists and dicts (with their
  keys in the order of the file). Booleans and floating-point numbers are not embedded.
\<close>

datatype json = JNull | JInt int | JStr string | JList "json list" | JObj "(string \<times> json) list"

text \<open>
  The content of \<open>DATA_FILE\<close>: no file, a file that cannot be opened, decoded or parsed
  (with the exception that reading it raises), or a file that parses to a JSON value.
\<close>

datatype storage = Absent | Unreadable exc | Document json

subsection \<open>Decimal text of integers: \<open>str(n)\<close> and \<open>int(s)\<close>\<close>

definition is_digit :: "char \<Rightarrow> bool" where
  "is_digit c = (48 \<le> (of_char c :: nat) \<and> (of_char c :: nat) \<le> 57)"

definition digit_val :: "char \<Rightarrow> nat" where
  "digit_val c = of_char c - 48"

definition digit_char :: "nat \<Rightarrow> char" where
  "digit_char d = char_of (48 + d)"

text \<open>The white space that \<open>int\<close> strips from ASCII text: tab to carriage return, and space.\<close>

definition is_space :: "char \<Rightarrow> bool" where
  "is_space c = (let n = (of_char c :: nat) in (9 \<le> n \<and> n \<le> 13) \<or> n = 32)"

fun digits :: "nat \<Rightarrow> string" where
  "digits n = (if n < 10 then [digit_char n] else digits (n div 10) @ [digit_char (n mod 10)])"

declare digits.simps [simp del]

definition py_str :: "int \<Rightarrow> string" where
  "py_str n = (if n < 0 then CHR ''-'' # digits (nat (- n)) else digits (nat n))"

text \<open>
  Digits with single underscores between them, as \<open>int\<close> with base 10 accepts them
  (leading zeros included). \<open>None\<close> is \<open>ValueError\<close>. The interpreter's limit on the
  length of a decimal text is not modelled.
\<close>

fun read_digits :: "nat \<Rightarrow> string \<Rightarrow> nat option" where
  "read_digits acc [] = None"
| "read_digits acc (c # cs) =
     (if is_digit c then
        (case cs of
           [] \<Rightarrow> Some (10 * acc + digit_val c)
         | d # ds \<Rightarrow>
             if d = CHR ''_'' then read_digits (10 * acc + digit_val c) ds
             else read_digits (10 * acc + digit_val c) (d # ds))
      else None)"

definition py_int :: "string \<Rightarrow> int option" where
  "py_int s =
     (case rev (dropWhile is_space (rev (dropWhile is_space s))) of
        [] \<Rightarrow> None
      | c # cs \<Rightarrow>
          if c = CHR ''-'' then map_option (\<lambda>n. - int n) (read_digits 0 cs)
          else if c = CHR ''+'' then map_option int (read_digits 0 cs)
          else map_option int (read_digits 0 (c # cs)))"

text \<open>\<open>int(s)\<close> on a text: embedded on ASCII text.\<close>

definition is_ascii :: "string \<Rightarrow> bool" where
  "is_ascii s = list_all (\<lambda>c. (of_char c :: nat) < 128) s"

definition int_of_text :: "string \<Rightarrow> int outcome" where
  "int_of_text s =
     (if is_ascii s then (case py_int s of None \<Rightarrow> Raises ValueError | Some n \<Rightarrow> Ok n)
      else Unmodelled)"

subsection \<open>class Task\<close>

record task =
  id_field :: "int option"
  title :: string
  category :: string
  due_date :: "string option"
  priority :: int
  notes_field :: string
  created_at :: string
  completed_at :: "string option"

text \<open>\<open>Task.__init__\<close>; \<open>int(priority)\<close> is the identity on an integer.\<close>

definition Task_init :: "string \<Rightarrow> string \<Rightarrow> string \<Rightarrow> string option \<Rightarrow> int \<Rightarrow> string \<Rightarrow> task" where
  "Task_init now ttl cat due prio nts =
     \<lparr>id_field = None, title = ttl, category = cat, due_date = due, priority = prio,
      notes_field = nts, created_at = now, completed_at = None\<rparr>"

definition json_opt_int :: "int option \<Rightarrow> json" where
  "json_opt_int x = (case x of None \<Rightarrow> JNull | Some n \<Rightarrow> JInt n)"

definition json_opt_str :: "string option \<Rightarrow> json" where
  "json_opt_str x = (case x of None \<Rightarrow> JNull | Some s \<Rightarrow> JStr s)"

definition to_dict :: "task \<Rightarrow> json" where
  "to_dict t = JObj
     [(''id'', json_opt_int (id_field t)),
      (''title'', JStr (title t)),
      (''category'', JStr (category t)),
      (''due_date'', json_opt_str (due_date t)),
      (''priority'', JInt (priority t)),
      (''notes'', JStr (notes_field t)),
      (''created_at'', JStr (created_at t)),
      (''completed_at'', json_opt_str (completed_at t))]"

text \<open>\<open>d.get(k, default)\<close> on a parsed JSON object.\<close>

definition get_default :: "(string \<times> json) list \<Rightarrow> string \<Rightarrow> json \<Rightarrow> json" where
  "get_default kvs k d = (case map_of kvs k of None \<Rightarrow> d | Some v \<Rightarrow> v)"

text \<open>\<open>int(priority)\<close> in \<open>Task.__init__\<close>, on a value read from the file.\<close>

definition int_of_json :: "json \<Rightarrow> int outcome" where
  "int_of_json j =
     (case j of
        JInt n \<Rightarrow> Ok n
      | JStr s \<Rightarrow> int_of_text s
      | _ \<Rightarrow> Raises TypeError)"

text \<open>The values that the typed fields can hold; any other value is \<open>Unmodelled\<close>.\<close>

definition want_str :: "json \<Rightarrow> string outcome" where
  "want_str j = (case j of JStr s \<Rightarrow> Ok s | _ \<Rightarrow> Unmodelled)"

definition want_opt_str :: "json \<Rightarrow> string option outcome" where
  "want_opt_str j = (case j of JNull \<Rightarrow> Ok None | JStr s \<Rightarrow> Ok (Some s) | _ \<Rightarrow> Unmodelled)"

definition want_opt_int :: "json \<Rightarrow> int option outcome" where
  "want_opt_int j = (case j of JNull \<Rightarrow> Ok None | JInt n \<Rightarrow> Ok (Some n) | _ \<Rightarrow> Unmodelled)"

definition want_int :: "json \<Rightarrow> int outcome" where
  "want_int j = (case j of JInt n \<Rightarrow> Ok n | _ \<Rightarrow> Unmodelled)"

text \<open>
  \<open>Task.from_dict\<close>. Subscripting a value that is no dict raises \<open>TypeError\<close>, a missing
  \<open>title\<close> raises \<open>KeyError\<close>, and \<open>int(priority)\<close> may raise; the checks of the field
  types come after everything that can raise.
\<close>

definition from_dict :: "string \<Rightarrow> json \<Rightarrow> task outcome" where
  "from_dict now d =
     (case d of
        JObj kvs \<Rightarrow>
          (case map_of kvs ''title'' of
             None \<Rightarrow> Raises KeyError
           | Some ttl \<Rightarrow>
               obind (int_of_json (get_default kvs ''priority'' (JInt 3))) (\<lambda>prio.
               obind (want_str ttl) (\<lambda>ttl'.
               obind (want_str (get_default kvs ''category'' (JStr ''General''))) (\<lambda>cat.
               obind (want_opt_str (get_default kvs ''due_date'' JNull)) (\<lambda>due.
               obind (want_str (get_default kvs ''notes'' (JStr ''''))) (\<lambda>nts.
               obind (want_opt_int (get_default kvs ''id'' JNull)) (\<lambda>i.
               obind (want_str (get_default kvs ''created_at'' (JStr now))) (\<lambda>cr.
               obind (want_opt_str (get_default kvs ''completed_at'' JNull)) (\<lambda>co.
                 Ok ((Task_init now ttl' cat due prio nts)
                       \<lparr>id_field := i, created_at := cr, completed_at := co\<rparr>))))))))))
      | _ \<Rightarrow> Raises TypeError)"

subsection \<open>class Planner: state and persistence\<close>

record planner =
  tasks :: "(int \<times> task) list"
  completed :: "(int \<times> task) list"
  next_id :: int
  xp :: int
  level :: int
  achievements :: "string list"
  disk :: storage

definition XP_PER_TASK :: int where "XP_PER_TASK = 20"
definition XP_TO_LEVEL :: int where "XP_TO_LEVEL = 100"

text \<open>The dict comprehensions of \<open>save\<close>; \<open>json.dump\<close> writes an integer key as its text.\<close>

definition tasks_json :: "(int \<times> task) list \<Rightarrow> json" where
  "tasks_json d = JObj (map (\<lambda>(tid, t). (py_str tid, to_dict t)) d)"

definition data_of :: "planner \<Rightarrow> json" where
  "data_of s = JObj
     [(''next_id'', JInt (next_id s)),
      (''xp'', JInt (xp s)),
      (''level'', JInt (level s)),
      (''achievements'', JList (map JStr (achievements s))),
      (''tasks'', tasks_json (tasks s)),
      (''completed'', tasks_json (completed s))]"

definition save :: "planner \<Rightarrow> planner" where
  "save s = s\<lparr>disk := Document (data_of s)\<rparr>"

definition create_default_file :: "planner \<Rightarrow> planner" where
  "create_default_file s =
     save (s\<lparr>next_id := 1, xp := 0, level := 1, tasks := [], completed := [],
             achievements := []\<rparr>)"

text \<open>
  \<open>set(data.get("achievements", []))\<close>: the elements of a list, the characters of an
  ASCII text or the keys of a dict; \<open>TypeError\<close> on a value that is not iterable or on an
  element that is not hashable.
\<close>

definition is_unhashable :: "json \<Rightarrow> bool" where
  "is_unhashable j = (case j of JList _ \<Rightarrow> True | JObj _ \<Rightarrow> True | _ \<Rightarrow> False)"

definition is_JStr :: "json \<Rightarrow> bool" where
  "is_JStr j = (case j of JStr _ \<Rightarrow> True | _ \<Rightarrow> False)"

definition the_JStr :: "json \<Rightarrow> string" where
  "the_JStr j = (case j of JStr s \<Rightarrow> s | _ \<Rightarrow> [])"

definition py_set :: "json \<Rightarrow> string list outcome" where
  "py_set j =
     (case j of
        JList xs \<Rightarrow>
          if list_ex is_unhashable xs then Raises TypeError
          else if list_all is_JStr xs then Ok (remdups (map the_JStr xs))
          else Unmodelled
      | JStr s \<Rightarrow> if is_ascii s then Ok (remdups (map (\<lambda>c. [c]) s)) else Unmodelled
      | JObj kvs \<Rightarrow> Ok (remdups (map fst kvs))
      | _ \<Rightarrow> Raises TypeError)"

text \<open>\<open>{int(k): Task.from_dict(v) for k, v in d.items()}\<close>, with the dict built so far.\<close>

fun load_items :: "string \<Rightarrow> (string \<times> json) list \<Rightarrow> (int \<times> task) list \<Rightarrow> (int \<times> task) list outcome" where
  "load_items now [] acc = Ok acc"
| "load_items now ((k, v) # kvs) acc =
     obind (int_of_text k) (\<lambda>i.
       obind (from_dict now v) (\<lambda>t. load_items now kvs (AList.update i t acc)))"

definition load_tasks :: "string \<Rightarrow> json \<Rightarrow> (int \<times> task) list outcome" where
  "load_tasks now j = (case j of JObj kvs \<Rightarrow> load_items now kvs [] | _ \<Rightarrow> Raises AttributeError)"

text \<open>
  The loop over \<open>{**self.tasks, **self.completed}\<close>: for a key of both dicts the merged
  dict holds the completed task, so the pending task of that key keeps the id it was read with.
\<close>

definition restore_ids :: "planner \<Rightarrow> planner" where
  "restore_ids s =
     s\<lparr>tasks := map (\<lambda>(tid, t). if tid \<in> fst ` set (completed s) then (tid, t)
                                  else (tid, t\<lparr>id_field := Some tid\<rparr>)) (tasks s),
       completed := map (\<lambda>(tid, t). (tid, t\<lparr>id_field := Some tid\<rparr>)) (completed s)\<rparr>"

text \<open>The body of the \<open>try\<close> of \<open>load\<close>, on the parsed file.\<close>

definition load_body :: "string \<Rightarrow> json \<Rightarrow> planner \<Rightarrow> planner outcome" where
  "load_body now data s =
     (case data of
        JObj kvs \<Rightarrow>
          obind (want_int (get_default kvs ''next_id'' (JInt 1))) (\<lambda>n.
          obind (want_int (get_default kvs ''xp'' (JInt 0))) (\<lambda>x.
          obind (want_int (get_default kvs ''level'' (JInt 1))) (\<lambda>l.
          obind (py_set (get_default kvs ''achievements'' (JList []))) (\<lambda>a.
          obind (load_tasks now (get_default kvs ''tasks'' (JObj []))) (\<lambda>ts.
          obind (load_tasks now (get_default kvs ''completed'' (JObj []))) (\<lambda>cs.
            Ok (restore_ids (s\<lparr>next_id := n, xp := x, level := l, achievements := a,
                                tasks := ts, completed := cs\<rparr>))))))))
      | _ \<Rightarrow> Raises AttributeError)"

definition read_file :: "storage \<Rightarrow> json outcome" where
  "read_file f = (case f of Absent \<Rightarrow> Raises OSError | Unreadable e \<Rightarrow> Raises e | Document j \<Rightarrow> Ok j)"

text \<open>
  \<open>_create_default_file\<close> as \<open>load\<close> calls it. Its \<open>save\<close> opens the data file for
  writing: \<open>wr\<close> is \<open>None\<close> when the file can be written, and \<open>Some e\<close> when opening it
  raises \<open>e\<close> (a directory in its place, no permission, a full disk).
\<close>

definition write_default :: "exc option \<Rightarrow> planner \<Rightarrow> planner outcome" where
  "write_default wr s = (case wr of None \<Rightarrow> Ok (create_default_file s) | Some e \<Rightarrow> Raises e)"

text \<open>
  \<open>load\<close> on a storage that answers writes by \<open>wr\<close>. The call of
  \<open>_create_default_file\<close> for a missing file is before the \<open>try\<close>, so that what it
  raises leaves \<open>load\<close>; any exception of the \<open>try\<close> is caught and answered by
  \<open>_create_default_file\<close> again, inside the handler, so that what it raises leaves
  \<open>load\<close> too.
\<close>

definition load_env :: "exc option \<Rightarrow> string \<Rightarrow> planner \<Rightarrow> planner outcome" where
  "load_env wr now s =
     obind (if disk s = Absent then write_default wr s else Ok s) (\<lambda>s1.
       case obind (read_file (disk s1)) (\<lambda>data. load_body now data s1) of
         Ok s2 \<Rightarrow> Ok s2
       | Raises e \<Rightarrow> write_default wr s1
       | Unmodelled \<Rightarrow> Unmodelled)"

text \<open>\<open>load\<close> where the data file can be written.\<close>

definition load :: "string \<Rightarrow> planner \<Rightarrow> planner outcome" where
  "load now s = load_env None now s"

subsection \<open>Task operations\<close>

definition add_task :: "string \<Rightarrow> string \<Rightarrow> string \<Rightarrow> string option \<Rightarrow> int \<Rightarrow> string \<Rightarrow> planner \<Rightarrow> int \<times> planner" where
  "add_task now ttl cat due prio nts s =
     (let t = (Task_init now ttl cat due prio nts)\<lparr>id_field := Some (next_id s)\<rparr>;
          s1 = s\<lparr>tasks := AList.update (next_id s) t (tasks s)\<rparr>;
          s2 = s1\<lparr>next_id := next_id s1 + 1\<rparr>
      in (next_id s, save s2))"

text \<open>
  Dates. A \<open>datetime\<close> is compared as the tuple (year, month, day, hour, minute, second,
  microsecond). \<open>datetime.fromisoformat\<close> is embedded on the calendar dates
  \<open>YYYY-MM-DD\<close>, which it reads as midnight of that day; on a text of that shape
  that names no day of the calendar it raises \<open>ValueError\<close>; any other text is
  \<open>Unmodelled\<close>.
\<close>

type_synonym datetime = "nat \<times> nat \<times> nat \<times> nat \<times> nat \<times> nat \<times> nat"

definition datetime_max :: datetime where
  "datetime_max = (9999, 12, 31, 23, 59, 59, 999999)"

definition num :: "string \<Rightarrow> nat" where
  "num ds = foldl (\<lambda>a c. 10 * a + digit_val c) 0 ds"

definition is_leap :: "nat \<Rightarrow> bool" where
  "is_leap y = (y mod 4 = 0 \<and> (y mod 100 \<noteq> 0 \<or> y mod 400 = 0))"

definition days_in_month :: "nat \<Rightarrow> nat \<Rightarrow> nat" where
  "days_in_month y m =
     (if m = 2 then (if is_leap y then 29 else 28)
      else if m = 4 \<or> m = 6 \<or> m = 9 \<or> m = 11 then 30 else 31)"

definition date_shape :: "string \<Rightarrow> bool" where
  "date_shape s =
     (length s = 10 \<and> s ! 4 = CHR ''-'' \<and> s ! 7 = CHR ''-'' \<and>
      list_all is_digit (take 4 s @ take 2 (drop 5 s) @ take 2 (drop 8 s)))"

definition the_date :: "string \<Rightarrow> nat \<times> nat \<times> nat" where
  "the_date s = (num (take 4 s), num (take 2 (drop 5 s)), num (take 2 (drop 8 s)))"

definition fromisoformat :: "string \<Rightarrow> datetime outcome" where
  "fromisoformat s =
     (if date_shape s then
        (case the_date s of (y, m, d) \<Rightarrow>
           if 1 \<le> y \<and> 1 \<le> m \<and> m \<le> 12 \<and> 1 \<le> d \<and> d \<le> days_in_month y m
           then Ok (y, m, d, 0, 0, 0, 0) else Raises ValueError)
      else Unmodelled)"

text \<open>\<open>due_key\<close>: \<open>None\<close> and the empty string are false in \<open>if d\<close>.\<close>

definition due_key :: "int \<times> task \<Rightarrow> datetime outcome" where
  "due_key pair =
     (case due_date (snd pair) of
        None \<Rightarrow> Ok datetime_max
      | Some d \<Rightarrow> if d = [] then Ok datetime_max else fromisoformat d)"

text \<open>
  \<open>list.sort(key=...)\<close> computes the key of every item first (an exception leaves the
  sort), then sorts stably by the keys.
\<close>

fun with_keys :: "('a \<Rightarrow> 'k outcome) \<Rightarrow> 'a list \<Rightarrow> ('k \<times> 'a) list outcome" where
  "with_keys f [] = Ok []"
| "with_keys f (x # xs) = obind (f x) (\<lambda>k. obind (with_keys f xs) (\<lambda>ks. Ok ((k, x) # ks)))"

definition sort_by_key :: "('a \<Rightarrow> ('k::linorder) outcome) \<Rightarrow> 'a list \<Rightarrow> 'a list outcome" where
  "sort_by_key f xs = obind (with_keys f xs) (\<lambda>ks. Ok (map snd (sort_key fst ks)))"

text \<open>
  \<open>view_tasks\<close>. The argument \<open>sort_by\<close> is \<open>None\<close> when the caller leaves it out; the
  default of the signature is \<open>"priority"\<close>.
\<close>

definition view_tasks :: "bool \<Rightarrow> string option \<Rightarrow> planner \<Rightarrow> (int \<times> task) list outcome" where
  "view_tasks show_completed sort_by s =
     (let items = (if show_completed then completed s else tasks s);
          sort_by' = (case sort_by of None \<Rightarrow> ''priority'' | Some k \<Rightarrow> k)
      in if items = [] then Ok []
         else if sort_by' = ''priority'' then sort_by_key (\<lambda>x. Ok (priority (snd x))) items
         else if sort_by' = ''due'' then sort_by_key due_key items
         else sort_by_key (\<lambda>x. Ok (fst x)) items)"

text \<open>\<open>get_task\<close>: a \<open>Task\<close> object is always true, so \<open>or\<close> falls through on \<open>None\<close> only.\<close>

definition get_task :: "int \<Rightarrow> planner \<Rightarrow> task option" where
  "get_task task_id s =
     (case map_of (tasks s) task_id of Some t \<Rightarrow> Some t | None \<Rightarrow> map_of (completed s) task_id)"

definition delete_task :: "int \<Rightarrow> planner \<Rightarrow> task option \<times> planner" where
  "delete_task task_id s =
     (case map_of (tasks s) task_id of
        Some t \<Rightarrow> (Some t, save (s\<lparr>tasks := AList.delete task_id (tasks s)\<rparr>))
      | None \<Rightarrow>
          (case map_of (completed s) task_id of
             Some t \<Rightarrow> (Some t, save (s\<lparr>completed := AList.delete task_id (completed s)\<rparr>))
           | None \<Rightarrow> (None, save s)))"

text \<open>
  A keyword argument of \<open>edit_task\<close> that names a data attribute of a \<open>Task\<close>, with a
  value of the attribute's type or \<open>None\<close>: one constructor for each of the eight attributes
  that \<open>__init__\<close> sets, for which \<open>hasattr\<close> holds.
\<close>

datatype kwarg =
    Kw_id "int option"
  | Kw_title "string option"
  | Kw_category "string option"
  | Kw_due_date "string option"
  | Kw_priority "int option"
  | Kw_notes "string option"
  | Kw_created_at "string option"
  | Kw_completed_at "string option"

text \<open>\<open>if hasattr(t, k) and v is not None: setattr(t, k, v)\<close> for such a keyword.\<close>

fun set_kwarg :: "task \<Rightarrow> kwarg \<Rightarrow> task" where
  "set_kwarg t (Kw_id v) = (case v of None \<Rightarrow> t | Some x \<Rightarrow> t\<lparr>id_field := Some x\<rparr>)"
| "set_kwarg t (Kw_title v) = (case v of None \<Rightarrow> t | Some x \<Rightarrow> t\<lparr>title := x\<rparr>)"
| "set_kwarg t (Kw_category v) = (case v of None \<Rightarrow> t | Some x \<Rightarrow> t\<lparr>category := x\<rparr>)"
| "set_kwarg t (Kw_due_date v) = (case v of None \<Rightarrow> t | Some x \<Rightarrow> t\<lparr>due_date := Some x\<rparr>)"
| "set_kwarg t (Kw_priority v) = (case v of None \<Rightarrow> t | Some x \<Rightarrow> t\<lparr>priority := x\<rparr>)"
| "set_kwarg t (Kw_notes v) = (case v of None \<Rightarrow> t | Some x \<Rightarrow> t\<lparr>notes_field := x\<rparr>)"
| "set_kwarg t (Kw_created_at v) = (case v of None \<Rightarrow> t | Some x \<Rightarrow> t\<lparr>created_at := x\<rparr>)"
| "set_kwarg t (Kw_completed_at v) = (case v of None \<Rightarrow> t | Some x \<Rightarrow> t\<lparr>completed_at := Some x\<rparr>)"

text \<open>
  Any keyword argument of a call \<open>edit_task(task_id, **kwargs)\<close>: \<open>Attr\<close> for the ones
  above, and \<open>Name n\<close> for every other one, by its name \<open>n\<close> (a keyword with one of the
  eight names and a value of another type is a \<open>Name\<close> too).

  \<^item> A keyword \<open>self\<close> or \<open>task_id\<close> gives a parameter of the method a second value: the
    call raises \<open>TypeError\<close> before the body runs.
  \<^item> \<open>hasattr\<close> holds of the eight data attributes, of the methods \<open>to_dict\<close> and
    \<open>from_dict\<close>, and of attributes that a \<open>Task\<close> has from \<open>object\<close>, whose names all
    begin with two underscores. \<open>setattr\<close> with such a name makes the object one that
    the record \<open>task\<close> does not describe (after \<open>edit_task(1, to_dict='x')\<close> the
    \<open>save\<close> of the same call raises \<open>TypeError\<close>): the loop is \<open>Unmodelled\<close> there.
  \<^item> \<open>hasattr\<close> fails for every other name, and the loop sets nothing.
\<close>

datatype keyword = Attr kwarg | Name string

definition binds_parameter :: "keyword \<Rightarrow> bool" where
  "binds_parameter k = (case k of Attr _ \<Rightarrow> False | Name n \<Rightarrow> n = ''self'' \<or> n = ''task_id'')"

definition may_be_attribute :: "string \<Rightarrow> bool" where
  "may_be_attribute n =
     (n \<in> set [''id'', ''title'', ''category'', ''due_date'', ''priority'', ''notes'',
               ''created_at'', ''completed_at'', ''to_dict'', ''from_dict'']
      \<or> take 2 n = ''__'')"

fun set_keyword :: "task \<Rightarrow> keyword \<Rightarrow> task outcome" where
  "set_keyword t (Attr k) = Ok (set_kwarg t k)"
| "set_keyword t (Name n) = (if may_be_attribute n then Unmodelled else Ok t)"

fun set_keywords :: "task \<Rightarrow> keyword list \<Rightarrow> task outcome" where
  "set_keywords t [] = Ok t"
| "set_keywords t (k # ks) = obind (set_keyword t k) (\<lambda>t'. set_keywords t' ks)"

text \<open>
  \<open>edit_task\<close> changes the task object where it lives: in \<open>tasks\<close> when the id is
  pending, in \<open>completed\<close> otherwise.
\<close>

definition edit_task :: "int \<Rightarrow> keyword list \<Rightarrow> planner \<Rightarrow> (bool \<times> planner) outcome" where
  "edit_task task_id kwargs s =
     (if list_ex binds_parameter kwargs then Raises TypeError
      else case get_task task_id s of
        None \<Rightarrow> Ok (False, s)
      | Some t \<Rightarrow>
          obind (set_keywords t kwargs) (\<lambda>t'.
            Ok (True, save (if map_of (tasks s) task_id \<noteq> None
                            then s\<lparr>tasks := AList.update task_id t' (tasks s)\<rparr>
                            else s\<lparr>completed := AList.update task_id t' (completed s)\<rparr>))))"

text \<open>
  The call with keywords that name data attributes only. It always returns
  (\<open>edit_task_attrs\<close> below), so that the second case is never taken.
\<close>

definition edit_fields :: "int \<Rightarrow> kwarg list \<Rightarrow> planner \<Rightarrow> bool \<times> planner" where
  "edit_fields task_id kwargs s =
     (case edit_task task_id (map Attr kwargs) s of Ok r \<Rightarrow> r | _ \<Rightarrow> (False, s))"

subsection \<open>Completion, levels and achievements\<close>

definition milestones :: "(nat \<times> string) list" where
  "milestones =
     [(1, ''First Task Done''), (5, ''Getting Serious''), (10, ''Study Machine''),
      (25, ''Legendary Studier'')]"

text \<open>\<open>if cond and name not in self.achievements: self.achievements.add(name)\<close>\<close>

definition unlock :: "bool \<Rightarrow> string \<Rightarrow> string list \<Rightarrow> string list" where
  "unlock cond name a = (if cond \<and> name \<notin> set a then a @ [name] else a)"

definition check_achievements_on_completion :: "planner \<Rightarrow> planner" where
  "check_achievements_on_completion s =
     (let completed_count = length (completed s);
          a1 = foldl (\<lambda>a (k, name). unlock (completed_count \<ge> k) name a) (achievements s) milestones;
          a2 = unlock (level s \<ge> 2) ''Level 2 Achieved'' a1;
          a3 = unlock (level s \<ge> 5) ''Level 5 Achieved'' a2
      in s\<lparr>achievements := a3\<rparr>)"

record completion =
  gained :: int
  leveled_up :: bool
  prev_xp :: int

datatype complete_result = Message string | Info completion

definition complete_task :: "string \<Rightarrow> int \<Rightarrow> planner \<Rightarrow> (bool \<times> complete_result) \<times> planner" where
  "complete_task now task_id s =
     (case map_of (tasks s) task_id of
        None \<Rightarrow> ((False, Message ''Task not found or already completed.''), s)
      | Some t \<Rightarrow>
          (let s1 = s\<lparr>tasks := AList.delete task_id (tasks s)\<rparr>;
               t' = t\<lparr>completed_at := Some now\<rparr>;
               s2 = s1\<lparr>completed := AList.update task_id t' (completed s1)\<rparr>;
               g = XP_PER_TASK;
               p = xp s2;
               s3 = s2\<lparr>xp := xp s2 + g\<rparr>;
               up = (xp s3 div XP_TO_LEVEL + 1 > level s3);
               s4 = (if up then s3\<lparr>level := xp s3 div XP_TO_LEVEL + 1\<rparr> else s3);
               s5 = check_achievements_on_completion s4
           in ((True, Info \<lparr>gained = g, leveled_up = up, prev_xp = p\<rparr>), save s5)))"

subsection \<open>Queries\<close>

record stats =
  st_pending :: nat
  st_completed :: nat
  st_total :: nat
  st_xp :: int
  st_level :: int
  st_achievements :: "string list"

definition stats_summary :: "planner \<Rightarrow> stats" where
  "stats_summary s =
     \<lparr>st_pending = length (tasks s), st_completed = length (completed s),
      st_total = length (tasks s) + length (completed s), st_xp = xp s, st_level = level s,
      st_achievements = sort (achievements s)\<rparr>"

text \<open>
  \<open>str.lower\<close>. A text is the \<open>string\<close> of its UTF-8 encoding; \<open>decode\<close> reads the code
  points of one- and two-byte sequences. \<open>lower\<close> is embedded on the code points of ASCII
  and of the Greek letters \<open>U+0391\<close>..\<open>U+03A9\<close>, \<open>U+03B1\<close>..\<open>U+03C9\<close>, where it adds 32 to a
  capital letter, but for the capital sigma \<open>U+03A3\<close>: it becomes the final sigma \<open>U+03C2\<close>
  when a cased character precedes it and none follows it, case-ignorable characters
  (\<open>' . : ^ `\<close> among the embedded ones) skipped on both sides, and \<open>U+03C3\<close> otherwise. A
  text with any other code point is \<open>Unmodelled\<close>.
\<close>

fun decode :: "string \<Rightarrow> nat list option" where
  "decode [] = Some []"
| "decode [c] = (if (of_char c :: nat) < 128 then Some [of_char c] else None)"
| "decode (c # d # cs) =
     (if (of_char c :: nat) < 128 then map_option (Cons (of_char c)) (decode (d # cs))
      else if 194 \<le> (of_char c :: nat) \<and> (of_char c :: nat) \<le> 223
              \<and> 128 \<le> (of_char d :: nat) \<and> (of_char d :: nat) \<le> 191
      then map_option (Cons ((of_char c - 192) * 64 + (of_char d - 128))) (decode cs)
      else None)"

definition encode1 :: "nat \<Rightarrow> string" where
  "encode1 n =
     (if n < 128 then [char_of n] else [char_of (192 + n div 64), char_of (128 + n mod 64)])"

definition encode :: "nat list \<Rightarrow> string" where
  "encode ns = concat (map encode1 ns)"

definition is_greek :: "nat \<Rightarrow> bool" where
  "is_greek n = ((0x391 \<le> n \<and> n \<le> 0x3A9 \<and> n \<noteq> 0x3A2) \<or> (0x3B1 \<le> n \<and> n \<le> 0x3C9))"

definition embedded_cp :: "nat \<Rightarrow> bool" where
  "embedded_cp n = (n < 128 \<or> is_greek n)"

definition cased :: "nat \<Rightarrow> bool" where
  "cased n = ((65 \<le> n \<and> n \<le> 90) \<or> (97 \<le> n \<and> n \<le> 122) \<or> is_greek n)"

definition case_ignorable :: "nat \<Rightarrow> bool" where
  "case_ignorable n = (n = 39 \<or> n = 46 \<or> n = 58 \<or> n = 94 \<or> n = 96)"

definition lower_cp :: "nat \<Rightarrow> nat" where
  "lower_cp n = (if (65 \<le> n \<and> n \<le> 90) \<or> (0x391 \<le> n \<and> n \<le> 0x3A9) then n + 32 else n)"

definition final_sigma :: "nat list \<Rightarrow> nat list \<Rightarrow> bool" where
  "final_sigma pre post =
     ((case dropWhile case_ignorable (rev pre) of [] \<Rightarrow> False | c # _ \<Rightarrow> cased c)
      \<and> (case dropWhile case_ignorable post of [] \<Rightarrow> True | c # _ \<Rightarrow> \<not> cased c))"

fun lower_from :: "nat list \<Rightarrow> nat list \<Rightarrow> nat list" where
  "lower_from pre [] = []"
| "lower_from pre (c # post) =
     (if c = 0x3A3 then (if final_sigma pre post then 0x3C2 else 0x3C3) else lower_cp c)
     # lower_from (pre @ [c]) post"

definition lower :: "string \<Rightarrow> string outcome" where
  "lower s =
     (case decode s of
        None \<Rightarrow> Unmodelled
      | Some ns \<Rightarrow> if list_all embedded_cp ns then Ok (encode (lower_from [] ns)) else Unmodelled)"

text \<open>
  \<open>keyword in text.lower()\<close>, with \<open>in\<close> as \<open>sublist\<close> (on UTF-8 text the substrings of
  bytes are those of code points); the test of one task, its \<open>or\<close> evaluated from the left;
  the loop over one collection; and \<open>search_tasks\<close>, which lowers the keyword first.
\<close>

definition contains_lower :: "string \<Rightarrow> string \<Rightarrow> bool outcome" where
  "contains_lower keyword text = obind (lower text) (\<lambda>l. Ok (sublist keyword l))"

definition search_match :: "string \<Rightarrow> int \<times> task \<Rightarrow> bool outcome" where
  "search_match keyword p =
     obind (contains_lower keyword (title (snd p))) (\<lambda>a. if a then Ok True else
     obind (contains_lower keyword (notes_field (snd p))) (\<lambda>b. if b then Ok True else
     contains_lower keyword (category (snd p))))"

fun search_in :: "string \<Rightarrow> (int \<times> task) list \<Rightarrow> (int \<times> task) list outcome" where
  "search_in keyword [] = Ok []"
| "search_in keyword (p # ps) =
     obind (search_match keyword p) (\<lambda>m.
     obind (search_in keyword ps) (\<lambda>r. Ok (if m then p # r else r)))"

definition search_tasks :: "string \<Rightarrow> planner \<Rightarrow> (int \<times> task) list outcome" where
  "search_tasks keyword s =
     obind (lower keyword) (\<lambda>keyword'.
     obind (search_in keyword' (tasks s)) (\<lambda>a.
     obind (search_in keyword' (completed s)) (\<lambda>b. Ok (a @ b))))"

subsection \<open>Sessions: sequences of calls on the engine\<close>

text \<open>
  A call with its arguments, and with the reading of the clock where the call reads it. In
  a session \<open>edit_task\<close> is called with keywords that name data attributes: the calls
  that return and leave tasks that the record \<open>task\<close> describes.
\<close>

datatype cmd =
    Add string string string "string option" int string
  | View bool "string option"
  | Get int
  | Delete int
  | Edit int "kwarg list"
  | Complete string int
  | Stats
  | Search string

datatype response =
    Added int
  | Items "(int \<times> task) list outcome"
  | Found "task option"
  | Removed "task option"
  | Edited bool
  | Completed bool complete_result
  | Summary stats
  | Matches "(int \<times> task) list outcome"

fun step :: "cmd \<Rightarrow> planner \<Rightarrow> response \<times> planner" where
  "step (Add now ttl cat due prio nts) s = apfst Added (add_task now ttl cat due prio nts s)"
| "step (View show_completed sort_by) s = (Items (view_tasks show_completed sort_by s), s)"
| "step (Get task_id) s = (Found (get_task task_id s), s)"
| "step (Delete task_id) s = apfst Removed (delete_task task_id s)"
| "step (Edit task_id kwargs) s = apfst Edited (edit_fields task_id kwargs s)"
| "step (Complete now task_id) s =
     apfst (\<lambda>(ok, result). Completed ok result) (complete_task now task_id s)"
| "step Stats s = (Summary (stats_summary s), s)"
| "step (Search keyword) s = (Matches (search_tasks keyword s), s)"

fun run :: "cmd list \<Rightarrow> planner \<Rightarrow> response list \<times> planner" where
  "run [] s = ([], s)"
| "run (c # cs) s =
     (case step c s of (r, s') \<Rightarrow> (case run cs s' of (rs, s'') \<Rightarrow> (r # rs, s'')))"

text \<open>
  \<open>Planner.__init__\<close> on a given content of the data file, and the state it yields when
  there is no file: the start of every session on a new data set.
\<close>

definition Planner_init :: "string \<Rightarrow> storage \<Rightarrow> planner outcome" where
  "Planner_init now f =
     load now \<lparr>tasks = [], completed = [], next_id = 1, xp = 0, level = 1, achievements = [],
               disk = f\<rparr>"

definition fresh :: planner where
  "fresh = create_default_file
     \<lparr>tasks = [], completed = [], next_id = 1, xp = 0, level = 1, achievements = [],
      disk = Absent\<rparr>"

text \<open>
  The states that the planner can be in: the fresh state, the state after any call, and the
  state that a new process loads from the file that the planner left.
\<close>

inductive reachable :: "planner \<Rightarrow> bool" where
  reachable_fresh: "reachable fresh"
| reachable_step: "reachable s \<Longrightarrow> reachable (snd (step c s))"
| reachable_load: "reachable s \<Longrightarrow> load now s = Ok s' \<Longrightarrow> reachable s'"

text \<open>The ids that the \<open>add_task\<close> calls of a session returned, in order.\<close>

fun added_ids :: "response list \<Rightarrow> int list" where
  "added_ids [] = []"
| "added_ids (Added i # rs) = i # added_ids rs"
| "added_ids (r # rs) = added_ids rs"

definition keys_of :: "planner \<Rightarrow> int set" where
  "keys_of s = fst ` set (tasks s) \<union> fst ` set (completed s)"

text \<open>Example data: the state after adding the task "Read Ch.1" with the defaults.\<close>

definition read_ch1 :: cmd where
  "read_ch1 = Add ''2024-01-01T09:00:00'' ''Read Ch.1'' ''General'' None 3 []"

definition one_pending :: planner where
  "one_pending = snd (step read_ch1 fresh)"

text \<open>
  Notions for the effect of \<open>edit_task\<close>. \<open>settable\<close>: a keyword that names a data
  attribute, or no attribute at all. \<open>attrs_of\<close>: the keywords of a call that name data
  attributes. Keywords that name one of the fields \<open>title\<close>, \<open>category\<close>, \<open>due_date\<close>,
  \<open>priority\<close>, \<open>notes\<close>, and keywords with the value \<open>None\<close>. The value that a keyword
  gives for each attribute, and \<open>last_value\<close>: the value that the last keyword of a list
  gives, \<open>None\<close> when no keyword gives one.
\<close>

definition settable :: "keyword \<Rightarrow> bool" where
  "settable k = (case k of Attr _ \<Rightarrow> True | Name n \<Rightarrow> \<not> may_be_attribute n)"

fun attrs_of :: "keyword list \<Rightarrow> kwarg list" where
  "attrs_of [] = []"
| "attrs_of (Attr k # ks) = k # attrs_of ks"
| "attrs_of (Name n # ks) = attrs_of ks"

definition mutable_kwarg :: "kwarg \<Rightarrow> bool" where
  "mutable_kwarg k =
     (case k of Kw_title _ \<Rightarrow> True | Kw_category _ \<Rightarrow> True | Kw_due_date _ \<Rightarrow> True
      | Kw_priority _ \<Rightarrow> True | Kw_notes _ \<Rightarrow> True | _ \<Rightarrow> False)"

definition null_kwarg :: "kwarg \<Rightarrow> bool" where
  "null_kwarg k =
     (case k of Kw_id v \<Rightarrow> v = None | Kw_title v \<Rightarrow> v = None | Kw_category v \<Rightarrow> v = None
      | Kw_due_date v \<Rightarrow> v = None | Kw_priority v \<Rightarrow> v = None | Kw_notes v \<Rightarrow> v = None
      | Kw_created_at v \<Rightarrow> v = None | Kw_completed_at v \<Rightarrow> v = None)"

definition id_arg :: "kwarg \<Rightarrow> int option" where
  "id_arg k = (case k of Kw_id v \<Rightarrow> v | _ \<Rightarrow> None)"

definition title_arg :: "kwarg \<Rightarrow> string option" where
  "title_arg k = (case k of Kw_title v \<Rightarrow> v | _ \<Rightarrow> None)"

definition category_arg :: "kwarg \<Rightarrow> string option" where
  "category_arg k = (case k of Kw_category v \<Rightarrow> v | _ \<Rightarrow> None)"

definition due_date_arg :: "kwarg \<Rightarrow> string option" where
  "due_date_arg k = (case k of Kw_due_date v \<Rightarrow> v | _ \<Rightarrow> None)"

definition priority_arg :: "kwarg \<Rightarrow> int option" where
  "priority_arg k = (case k of Kw_priority v \<Rightarrow> v | _ \<Rightarrow> None)"

definition notes_arg :: "kwarg \<Rightarrow> string option" where
  "notes_arg k = (case k of Kw_notes v \<Rightarrow> v | _ \<Rightarrow> None)"

definition created_at_arg :: "kwarg \<Rightarrow> string option" where
  "created_at_arg k = (case k of Kw_created_at v \<Rightarrow> v | _ \<Rightarrow> None)"

definition completed_at_arg :: "kwarg \<Rightarrow> string option" where
  "completed_at_arg k = (case k of Kw_completed_at v \<Rightarrow> v | _ \<Rightarrow> None)"

fun last_value :: "('k \<Rightarrow> 'a option) \<Rightarrow> 'k list \<Rightarrow> 'a option" where
  "last_value g [] = None"
| "last_value g (k # ks) = (case last_value g ks of Some x \<Rightarrow> Some x | None \<Rightarrow> g k)"

text \<open>
  The words of the specification of \<open>search\<close>: some substring of the text equals the
  keyword up to the case of letters, a capital letter \<open>A\<close>..\<open>Z\<close> and its small letter
  being the same letter. \<open>ascii_fields\<close>: the three texts of a task are ASCII. The lower
  case of one ASCII character.
\<close>

definition is_upper :: "char \<Rightarrow> bool" where
  "is_upper c = (65 \<le> (of_char c :: nat) \<and> (of_char c :: nat) \<le> 90)"

definition same_letter :: "char \<Rightarrow> char \<Rightarrow> bool" where
  "same_letter c d =
     (c = d \<or> (is_upper c \<and> (of_char d :: nat) = of_char c + 32)
      \<or> (is_upper d \<and> (of_char c :: nat) = of_char d + 32))"

definition ci_contains :: "string \<Rightarrow> string \<Rightarrow> bool" where
  "ci_contains keyword text = (\<exists>ps u ss. text = ps @ u @ ss \<and> list_all2 same_letter u keyword)"

definition spec_match :: "string \<Rightarrow> int \<times> task \<Rightarrow> bool" where
  "spec_match keyword p =
     (ci_contains keyword (title (snd p)) \<or> ci_contains keyword (notes_field (snd p))
      \<or> ci_contains keyword (category (snd p)))"

definition ascii_fields :: "int \<times> task \<Rightarrow> bool" where
  "ascii_fields p =
     (is_ascii (title (snd p)) \<and> is_ascii (notes_field (snd p)) \<and> is_ascii (category (snd p)))"

definition lower_ascii :: "char \<Rightarrow> char" where
  "lower_ascii c = char_of (lower_cp (of_char c))"

text \<open>
  Example data: the keyword of the one letter capital sigma, \<open>U+03A3\<close>, and a planner
  whose one task has the title \<open>U+039F U+0394 U+039F U+03A3\<close>, a word of four capital Greek
  letters that ends with that letter.
\<close>

definition capital_sigma :: string where
  "capital_sigma = [CHR 0xCE, CHR 0xA3]"

definition odos :: string where
  "odos = [CHR 0xCE, CHR 0x9F, CHR 0xCE, CHR 0x94, CHR 0xCE, CHR 0x9F, CHR 0xCE, CHR 0xA3]"

definition one_greek :: planner where
  "one_greek = snd (step (Add ''2024-01-01T09:00:00'' odos ''General'' None 3 []) fresh)"






definition outcome_map :: "('a \<Rightarrow> 'b) \<Rightarrow> 'a outcome \<Rightarrow> 'b outcome" where
  "outcome_map f m = obind m (\<lambda>x. Ok (f x))"



text \<open>
  The highest number of completed tasks that a session passes through; deletions; the names
  that the check after a completion adds for a number of completed tasks and a level; and
  the invariant that ties the four milestone names to the highest number reached.
\<close>

fun peak :: "cmd list \<Rightarrow> planner \<Rightarrow> nat" where
  "peak [] s = length (completed s)"
| "peak (c # cs) s = max (length (completed s)) (peak cs (snd (step c s)))"

definition is_Delete :: "cmd \<Rightarrow> bool" where
  "is_Delete c = (case c of Delete _ \<Rightarrow> True | _ \<Rightarrow> False)"

definition unlocked :: "nat \<Rightarrow> int \<Rightarrow> string set" where
  "unlocked n l =
     {x. x = ''First Task Done'' \<and> 1 \<le> n} \<union> {x. x = ''Getting Serious'' \<and> 5 \<le> n}
     \<union> {x. x = ''Study Machine'' \<and> 10 \<le> n} \<union> {x. x = ''Legendary Studier'' \<and> 25 \<le> n}
     \<union> {x. x = ''Level 2 Achieved'' \<and> 2 \<le> l} \<union> {x. x = ''Level 5 Achieved'' \<and> 5 \<le> l}"

definition ms_inv :: "planner \<Rightarrow> nat \<Rightarrow> bool" where
  "ms_inv s h =
     ((''First Task Done'' \<in> set (achievements s)) = (1 \<le> h)
      \<and> (''Getting Serious'' \<in> set (achievements s)) = (5 \<le> h)
      \<and> (''Study Machine'' \<in> set (achievements s)) = (10 \<le> h)
      \<and> (''Legendary Studier'' \<in> set (achievements s)) = (25 \<le> h)
      \<and> length (completed s) \<le> h)"

text \<open>Example session: a task is added, completed and then deleted.\<close>

definition done_and_deleted :: "cmd list" where
  "done_and_deleted = [read_ch1, Complete ''2024-01-02T10:00:00'' 1, Delete 1]"

text \<open>
  Notions for the persistence claims. A list stands for a dict when no key occurs twice, and
  for a set when no element occurs twice; \<open>ids_match\<close> says that the \<open>id\<close> attribute of
  every task is the key under which the planner holds it.
\<close>

definition ids_match :: "planner \<Rightarrow> bool" where
  "ids_match s = list_all (\<lambda>p. id_field (snd p) = Some (fst p)) (tasks s @ completed s)"

definition is_dict :: "('k \<times> 'v) list \<Rightarrow> bool" where
  "is_dict d = distinct (map fst d)"

definition well_formed :: "planner \<Rightarrow> bool" where
  "well_formed s = (is_dict (tasks s) \<and> is_dict (completed s) \<and> distinct (achievements s))"

text \<open>
  Example data: a file that parses but holds a task without a title, and the state after
  \<open>edit_task(1, id=99)\<close>.
\<close>

definition no_title_doc :: json where
  "no_title_doc = JObj [(''tasks'', JObj [(''1'', JObj [(''category'', JStr ''Study'')])])]"

definition renumbered :: planner where
  "renumbered = snd (edit_fields 1 [Kw_id (Some 99)] one_pending)"

text \<open>
  A session seen through its keys only: the ids that are pending and completed, the
  counters and the achievements. \<open>shape_step\<close> is what a call does to these; it is proved
  below to agree with \<open>step\<close>, and serves to evaluate long sessions.
\<close>

type_synonym shape = "int list \<times> int list \<times> int \<times> int \<times> int \<times> string list"

definition shape_of :: "planner \<Rightarrow> shape" where
  "shape_of s =
     (map fst (tasks s), map fst (completed s), next_id s, xp s, level s, achievements s)"

definition earned :: "nat \<Rightarrow> int \<Rightarrow> string list \<Rightarrow> string list" where
  "earned n l a =
     unlock (l \<ge> 5) ''Level 5 Achieved'' (unlock (l \<ge> 2) ''Level 2 Achieved''
       (foldl (\<lambda>a (k, name). unlock (n \<ge> k) name a) a milestones))"

fun shape_step :: "cmd \<Rightarrow> shape \<Rightarrow> shape" where
  "shape_step (Add now ttl cat due prio nts) (p, c, n, x, l, a) =
     ((if n \<in> set p then p else p @ [n]), c, n + 1, x, l, a)"
| "shape_step (Delete i) (p, c, n, x, l, a) =
     (if i \<in> set p then (removeAll i p, c, n, x, l, a) else (p, removeAll i c, n, x, l, a))"
| "shape_step (Complete now i) (p, c, n, x, l, a) =
     (if i \<in> set p then
        (let c' = (if i \<in> set c then c else c @ [i]);
             l' = (if (x + 20) div 100 + 1 > l then (x + 20) div 100 + 1 else l)
         in (removeAll i p, c', n, x + 20, l', earned (length c') l' a))
      else (p, c, n, x, l, a))"
| "shape_step (View sc sb) sh = sh"
| "shape_step (Get i) sh = sh"
| "shape_step (Edit i kw) sh = sh"
| "shape_step Stats sh = sh"
| "shape_step (Search k) sh = sh"

text \<open>
  Example session: six tasks are added and five of them completed, three of the completed
  ones are deleted, and the sixth is completed.
\<close>

definition count_drops :: "cmd list" where
  "count_drops =
     [read_ch1, read_ch1, read_ch1, read_ch1, read_ch1, read_ch1,
      Complete ''2024-01-02T10:00:00'' 1, Complete ''2024-01-02T10:00:00'' 2,
      Complete ''2024-01-02T10:00:00'' 3, Complete ''2024-01-02T10:00:00'' 4,
      Complete ''2024-01-02T10:00:00'' 5,
      Delete 1, Delete 2, Delete 3,
      Complete ''2024-01-03T10:00:00'' 6]"

text \<open>
  Calls that do not set the \<open>id\<close> attribute of a task, and states whose file holds the
  state itself.
\<close>

definition plain_cmd :: "cmd \<Rightarrow> bool" where
  "plain_cmd c =
     (case c of Edit _ kw \<Rightarrow> list_all (\<lambda>k. case k of Kw_id _ \<Rightarrow> False | _ \<Rightarrow> True) kw | _ \<Rightarrow> True)"

definition persisted :: "planner \<Rightarrow> bool" where
  "persisted s = (disk s = Document (data_of s) \<and> well_formed s \<and> ids_match s)"

text \<open>
  The invariant of sessions: the level follows the experience points, every key is below
  \<open>next_id\<close>, the collections are dicts; and the file holds a state of which the same is true.
\<close>

definition sound :: "planner \<Rightarrow> bool" where
  "sound s = (level s = xp s div 100 + 1 \<and> (\<forall>k \<in> keys_of s. k < next_id s) \<and> well_formed s)"

definition session_inv :: "planner \<Rightarrow> bool" where
  "session_inv s = (sound s \<and> (\<exists>s0. disk s = Document (data_of s0) \<and> sound s0))"

section \<open>Properties\<close>

subsection \<open>Field-wise effect of the operations\<close>

lemma set_keywords_attrs: "set_keywords t (map Attr kw) = Ok (foldl set_kwarg t kw)"
  by (induction kw arbitrary: t) (simp_all add: obind_def)

lemma binds_parameter_attrs: "\<not> list_ex binds_parameter (map Attr kw)"
  by (simp add: list_ex_iff binds_parameter_def)

lemma edit_fields_unfold:
  "edit_fields task_id kwargs s =
     (case get_task task_id s of
        None \<Rightarrow> (False, s)
      | Some t \<Rightarrow>
          (let t' = foldl set_kwarg t kwargs;
               s' = (if map_of (tasks s) task_id \<noteq> None
                     then s\<lparr>tasks := AList.update task_id t' (tasks s)\<rparr>
                     else s\<lparr>completed := AList.update task_id t' (completed s)\<rparr>)
           in (True, save s')))"
  by (simp add: edit_fields_def edit_task_def set_keywords_attrs binds_parameter_attrs obind_def
      Let_def split: option.splits)

lemma edit_task_attrs: "edit_task task_id (map Attr kwargs) s = Ok (edit_fields task_id kwargs s)"
  by (simp add: edit_fields_def edit_task_def set_keywords_attrs binds_parameter_attrs obind_def
      split: option.splits)

lemma save_fields [simp]:
  "tasks (save s) = tasks s" "completed (save s) = completed s" "next_id (save s) = next_id s"
  "xp (save s) = xp s" "level (save s) = level s" "achievements (save s) = achievements s"
  "disk (save s) = Document (data_of s)"
  by (simp_all add: save_def)

lemma load_writable:
  "load now s =
     (let s1 = (if disk s = Absent then create_default_file s else s) in
      case obind (read_file (disk s1)) (\<lambda>data. load_body now data s1) of
        Ok s2 \<Rightarrow> Ok s2
      | Raises e \<Rightarrow> Ok (create_default_file s1)
      | Unmodelled \<Rightarrow> Unmodelled)"
  by (auto simp: load_def load_env_def write_default_def obind_def Let_def split: outcome.splits)

lemma check_fields [simp]:
  "tasks (check_achievements_on_completion s) = tasks s"
  "completed (check_achievements_on_completion s) = completed s"
  "next_id (check_achievements_on_completion s) = next_id s"
  "xp (check_achievements_on_completion s) = xp s"
  "level (check_achievements_on_completion s) = level s"
  "disk (check_achievements_on_completion s) = disk s"
  by (simp_all add: check_achievements_on_completion_def Let_def)

lemma complete_task_found:
  assumes "map_of (tasks s) i = Some t"
  shows "fst (complete_task now i s) =
           (True, Info \<lparr>gained = 20, leveled_up = ((xp s + 20) div 100 + 1 > level s), prev_xp = xp s\<rparr>)"
    and "tasks (snd (complete_task now i s)) = AList.delete i (tasks s)"
    and "completed (snd (complete_task now i s)) =
           AList.update i (t\<lparr>completed_at := Some now\<rparr>) (completed s)"
    and "xp (snd (complete_task now i s)) = xp s + 20"
    and "level (snd (complete_task now i s)) =
           (if (xp s + 20) div 100 + 1 > level s then (xp s + 20) div 100 + 1 else level s)"
    and "next_id (snd (complete_task now i s)) = next_id s"
  using assms by (simp_all add: complete_task_def Let_def XP_PER_TASK_def XP_TO_LEVEL_def)

lemma complete_task_missing:
  "map_of (tasks s) i = None \<Longrightarrow>
   complete_task now i s = ((False, Message ''Task not found or already completed.''), s)"
  by (simp add: complete_task_def)

lemma add_task_fields:
  "fst (add_task now ttl cat due prio nts s) = next_id s"
  "next_id (snd (add_task now ttl cat due prio nts s)) = next_id s + 1"
  "xp (snd (add_task now ttl cat due prio nts s)) = xp s"
  "level (snd (add_task now ttl cat due prio nts s)) = level s"
  "achievements (snd (add_task now ttl cat due prio nts s)) = achievements s"
  "completed (snd (add_task now ttl cat due prio nts s)) = completed s"
  by (simp_all add: add_task_def Let_def)

lemma delete_task_fields:
  "next_id (snd (delete_task i s)) = next_id s"
  "xp (snd (delete_task i s)) = xp s"
  "level (snd (delete_task i s)) = level s"
  "achievements (snd (delete_task i s)) = achievements s"
  by (simp_all add: delete_task_def split: option.splits)

lemma edit_fields_frame:
  "next_id (snd (edit_fields i kw s)) = next_id s"
  "xp (snd (edit_fields i kw s)) = xp s"
  "level (snd (edit_fields i kw s)) = level s"
  "achievements (snd (edit_fields i kw s)) = achievements s"
  by (simp_all add: edit_fields_unfold Let_def split: option.splits)

lemma run_Cons:
  "fst (run (c # cs) s) = fst (step c s) # fst (run cs (snd (step c s)))"
  "snd (run (c # cs) s) = snd (run cs (snd (step c s)))"
  by (simp_all split: prod.splits)

lemma one_pending_fields:
  "tasks one_pending =
     [(1, \<lparr>id_field = Some 1, title = ''Read Ch.1'', category = ''General'', due_date = None,
           priority = 3, notes_field = [], created_at = ''2024-01-01T09:00:00'',
           completed_at = None\<rparr>)]"
  "completed one_pending = []" "next_id one_pending = 2" "xp one_pending = 0"
  "level one_pending = 1" "achievements one_pending = []"
  by (simp_all add: one_pending_def read_ch1_def fresh_def create_default_file_def add_task_def
      Let_def Task_init_def)

lemma reachable_one_pending: "reachable one_pending"
  unfolding one_pending_def by (rule reachable_step [OF reachable_fresh])

subsection \<open>The level follows the experience points\<close>

lemma step_level_xp:
  "level s = xp s div 100 + 1 \<Longrightarrow> level (snd (step c s)) = xp (snd (step c s)) div 100 + 1"
proof (cases c)
  case (Complete now i)
  then show "level s = xp s div 100 + 1 \<Longrightarrow> ?thesis"
    by (cases "map_of (tasks s) i") (auto simp: complete_task_missing complete_task_found)
qed (simp_all add: add_task_fields delete_task_fields edit_fields_frame)

text \<open>
  C2. In every planner state, \<open>complete_task\<close> on an id that is not pending (an unknown
  id, or one that is already completed) returns \<open>False\<close> with the message
  "Task not found or already completed." and leaves the whole state as it was
  (\<open>xp\<close>, \<open>level\<close>, \<open>tasks\<close>, \<open>completed\<close> and the file included).
\<close>

theorem complete_not_pending:
  assumes "map_of (tasks s) i = None"
  shows "complete_task now i s = ((False, Message ''Task not found or already completed.''), s)"
  using assms by (simp add: complete_task_def)

theorem complete_not_pending_witness:
  "map_of (tasks one_pending) 7 = None
   \<and> complete_task ''2024-01-02T10:00:00'' 7 one_pending =
       ((False, Message ''Task not found or already completed.''), one_pending)"
proof -
  have m: "map_of (tasks one_pending) 7 = None" by (simp add: one_pending_fields)
  show ?thesis using complete_not_pending [OF m] m by blast
qed

subsection \<open>Ids\<close>

lemma step_next_id:
  "next_id (snd (step c s)) = (case c of Add _ _ _ _ _ _ \<Rightarrow> next_id s + 1 | _ \<Rightarrow> next_id s)"
proof (cases c)
  case (Complete now i)
  then show ?thesis
    by (cases "map_of (tasks s) i") (simp_all add: complete_task_missing complete_task_found)
qed (simp_all add: add_task_fields delete_task_fields edit_fields_frame)

lemma step_added:
  "added_ids (fst (step c s) # rs) =
     (case c of Add _ _ _ _ _ _ \<Rightarrow> next_id s # added_ids rs | _ \<Rightarrow> added_ids rs)"
  by (cases c) (simp_all add: add_task_fields split: prod.splits)

lemma run_ids:
  "sorted_wrt (<) (added_ids (fst (run cs s)))
   \<and> (\<forall>i \<in> set (added_ids (fst (run cs s))). next_id s \<le> i \<and> i < next_id (snd (run cs s)))
   \<and> next_id s \<le> next_id (snd (run cs s))"
proof (induction cs arbitrary: s)
  case Nil
  show ?case by simp
next
  case (Cons c cs)
  let ?s1 = "snd (step c s)"
  define A where "A = added_ids (fst (run cs ?s1))"
  define m where "m = next_id (snd (run cs ?s1))"
  define n1 where "n1 = next_id ?s1"
  have ih: "sorted_wrt (<) A \<and> (\<forall>i \<in> set A. n1 \<le> i \<and> i < m) \<and> n1 \<le> m"
    unfolding A_def m_def n1_def by (rule Cons.IH)
  have ids: "added_ids (fst (run (c # cs) s)) =
      (case c of Add _ _ _ _ _ _ \<Rightarrow> next_id s # A | _ \<Rightarrow> A)"
    unfolding A_def run_Cons by (rule step_added)
  have n: "n1 = (case c of Add _ _ _ _ _ _ \<Rightarrow> next_id s + 1 | _ \<Rightarrow> next_id s)"
    unfolding n1_def by (rule step_next_id)
  have sn: "next_id (snd (run (c # cs) s)) = m"
    unfolding m_def run_Cons by (rule refl)
  show ?case unfolding ids sn using ih n by (cases c) auto
qed

lemma keys_update: "fst ` set (AList.update k v xs) = insert k (fst ` set xs)"
  by (induction xs) auto

lemma keys_delete: "fst ` set (AList.delete k xs) = fst ` set xs - {k}"
  by (induction xs) auto

lemma map_of_keys: "map_of xs k = Some v \<Longrightarrow> k \<in> fst ` set xs"
  by (metis map_of_eq_None_iff option.distinct(1))

lemma step_keys:
  "keys_of (snd (step c s)) \<subseteq> keys_of s \<union> (case c of Add _ _ _ _ _ _ \<Rightarrow> {next_id s} | _ \<Rightarrow> {})"
proof (cases c)
  case (Add now ttl cat due prio nts)
  then show ?thesis
    by (auto simp: keys_of_def add_task_def Let_def keys_update)
next
  case (Delete i)
  then show ?thesis
    by (auto simp: keys_of_def delete_task_def keys_delete split: option.splits)
next
  case (Edit i kw)
  then show ?thesis
    by (auto simp: keys_of_def edit_fields_unfold Let_def keys_update get_task_def
        dest: map_of_keys split: option.splits if_splits)
next
  case (Complete now i)
  then show ?thesis
    by (cases "map_of (tasks s) i")
       (auto simp: keys_of_def complete_task_missing complete_task_found keys_update keys_delete
        dest: map_of_keys)
qed simp_all

lemma step_keys_bound:
  assumes "\<forall>k \<in> keys_of s. k < next_id s"
  shows "\<forall>k \<in> keys_of (snd (step c s)). k < next_id (snd (step c s))"
proof
  fix k assume "k \<in> keys_of (snd (step c s))"
  then have "k \<in> keys_of s \<union> (case c of Add _ _ _ _ _ _ \<Rightarrow> {next_id s} | _ \<Rightarrow> {})"
    using step_keys [of c s] by blast
  then show "k < next_id (snd (step c s))"
    using assms step_next_id [of c s] by (cases c) fastforce+
qed

subsection \<open>Levels\<close>

lemma step_level: "level s \<le> level (snd (step c s))"
proof (cases c)
  case (Complete now i)
  then show ?thesis
    by (cases "map_of (tasks s) i") (simp_all add: complete_task_missing complete_task_found)
qed (simp_all add: add_task_fields delete_task_fields edit_fields_frame)

lemma run_level: "level s \<le> level (snd (run cs s))"
proof (induction cs arbitrary: s)
  case Nil
  show ?case by simp
next
  case (Cons c cs)
  have "level s \<le> level (snd (step c s))" by (rule step_level)
  also have "\<dots> \<le> level (snd (run cs (snd (step c s))))" by (rule Cons.IH)
  finally show ?case unfolding run_Cons .
qed

text \<open>
  C10. The stored level never goes down: not by any single call (add, view, get, delete,
  edit, complete, stats, search) from any state, hence not over any session; and
  \<open>complete_task\<close> stores the recomputed level \<open>xp div 100 + 1\<close> only when the id is
  pending and the recomputed level is strictly above the stored one, and keeps the stored
  level otherwise.
\<close>

theorem level_never_decreases:
  "level s \<le> level (snd (step c s))
   \<and> level s \<le> level (snd (run cs s))
   \<and> level (snd (complete_task now i s)) =
       (if map_of (tasks s) i \<noteq> None \<and> level s < (xp s + XP_PER_TASK) div XP_TO_LEVEL + 1
        then (xp s + XP_PER_TASK) div XP_TO_LEVEL + 1 else level s)"
proof -
  have "level (snd (complete_task now i s)) =
       (if map_of (tasks s) i \<noteq> None \<and> level s < (xp s + XP_PER_TASK) div XP_TO_LEVEL + 1
        then (xp s + XP_PER_TASK) div XP_TO_LEVEL + 1 else level s)"
    by (cases "map_of (tasks s) i")
       (simp_all add: complete_task_missing complete_task_found XP_PER_TASK_def XP_TO_LEVEL_def)
  then show ?thesis using step_level [of s c] run_level [of s cs] by blast
qed

theorem level_never_decreases_witness:
  "level (one_pending\<lparr>level := 7\<rparr>)
     \<le> level (snd (step (Complete ''2024-01-02T10:00:00'' 1) (one_pending\<lparr>level := 7\<rparr>)))
   \<and> level (snd (complete_task ''2024-01-02T10:00:00'' 1 (one_pending\<lparr>level := 7\<rparr>))) = 7
   \<and> level (snd (complete_task ''2024-01-02T10:00:00'' 1 (one_pending\<lparr>xp := 90\<rparr>))) = 2"
  using level_never_decreases [of "one_pending\<lparr>level := 7\<rparr>" "Complete ''2024-01-02T10:00:00'' 1"
      "[]" "''2024-01-02T10:00:00''" 1]
    level_never_decreases [of "one_pending\<lparr>xp := 90\<rparr>" "Stats" "[]" "''2024-01-02T10:00:00''" 1]
  by (simp add: one_pending_fields XP_PER_TASK_def XP_TO_LEVEL_def)

subsection \<open>Editing\<close>

lemma set_kwarg_mutable:
  "mutable_kwarg k \<Longrightarrow> id_field (set_kwarg t k) = id_field t
     \<and> created_at (set_kwarg t k) = created_at t \<and> completed_at (set_kwarg t k) = completed_at t"
  by (cases k) (simp_all add: mutable_kwarg_def split: option.splits)

lemma foldl_set_kwarg_mutable:
  "list_all mutable_kwarg kw \<Longrightarrow> id_field (foldl set_kwarg t kw) = id_field t
     \<and> created_at (foldl set_kwarg t kw) = created_at t
     \<and> completed_at (foldl set_kwarg t kw) = completed_at t"
  by (induction kw arbitrary: t) (simp_all add: set_kwarg_mutable)

lemma set_kwarg_null: "null_kwarg k \<Longrightarrow> set_kwarg t k = t"
  by (cases k) (simp_all add: null_kwarg_def)

lemma foldl_set_kwarg_null: "list_all null_kwarg kw \<Longrightarrow> foldl set_kwarg t kw = t"
  by (induction kw arbitrary: t) (simp_all add: set_kwarg_null)

lemma keys_update_present: "map_of xs k \<noteq> None \<Longrightarrow> map fst (AList.update k v xs) = map fst xs"
  by (induction xs) auto

lemma set_keywords_settable:
  "list_all settable kw \<Longrightarrow> set_keywords t kw = Ok (foldl set_kwarg t (attrs_of kw))"
proof (induction kw arbitrary: t)
  case Nil
  show ?case by simp
next
  case (Cons k ks)
  then show ?case by (cases k) (simp_all add: settable_def obind_def)
qed

text \<open>Each field after the loop: the value of the last keyword that gives one, else its own.\<close>

lemma foldl_set_kwarg_id:
  "id_field (foldl set_kwarg t kw) =
     (case last_value id_arg kw of None \<Rightarrow> id_field t | Some x \<Rightarrow> Some x)"
proof (induction kw arbitrary: t)
  case Nil
  show ?case by simp
next
  case (Cons k ks)
  show ?case by (cases k) (simp_all add: Cons.IH id_arg_def split: option.splits)
qed

lemma foldl_set_kwarg_title:
  "title (foldl set_kwarg t kw) =
     (case last_value title_arg kw of None \<Rightarrow> title t | Some x \<Rightarrow> x)"
proof (induction kw arbitrary: t)
  case Nil
  show ?case by simp
next
  case (Cons k ks)
  show ?case by (cases k) (simp_all add: Cons.IH title_arg_def split: option.splits)
qed

lemma foldl_set_kwarg_category:
  "category (foldl set_kwarg t kw) =
     (case last_value category_arg kw of None \<Rightarrow> category t | Some x \<Rightarrow> x)"
proof (induction kw arbitrary: t)
  case Nil
  show ?case by simp
next
  case (Cons k ks)
  show ?case by (cases k) (simp_all add: Cons.IH category_arg_def split: option.splits)
qed

lemma foldl_set_kwarg_due_date:
  "due_date (foldl set_kwarg t kw) =
     (case last_value due_date_arg kw of None \<Rightarrow> due_date t | Some x \<Rightarrow> Some x)"
proof (induction kw arbitrary: t)
  case Nil
  show ?case by simp
next
  case (Cons k ks)
  show ?case by (cases k) (simp_all add: Cons.IH due_date_arg_def split: option.splits)
qed

lemma foldl_set_kwarg_priority:
  "priority (foldl set_kwarg t kw) =
     (case last_value priority_arg kw of None \<Rightarrow> priority t | Some x \<Rightarrow> x)"
proof (induction kw arbitrary: t)
  case Nil
  show ?case by simp
next
  case (Cons k ks)
  show ?case by (cases k) (simp_all add: Cons.IH priority_arg_def split: option.splits)
qed

lemma foldl_set_kwarg_notes:
  "notes_field (foldl set_kwarg t kw) =
     (case last_value notes_arg kw of None \<Rightarrow> notes_field t | Some x \<Rightarrow> x)"
proof (induction kw arbitrary: t)
  case Nil
  show ?case by simp
next
  case (Cons k ks)
  show ?case by (cases k) (simp_all add: Cons.IH notes_arg_def split: option.splits)
qed

lemma foldl_set_kwarg_created_at:
  "created_at (foldl set_kwarg t kw) =
     (case last_value created_at_arg kw of None \<Rightarrow> created_at t | Some x \<Rightarrow> x)"
proof (induction kw arbitrary: t)
  case Nil
  show ?case by simp
next
  case (Cons k ks)
  show ?case by (cases k) (simp_all add: Cons.IH created_at_arg_def split: option.splits)
qed

lemma foldl_set_kwarg_completed_at:
  "completed_at (foldl set_kwarg t kw) =
     (case last_value completed_at_arg kw of None \<Rightarrow> completed_at t | Some x \<Rightarrow> Some x)"
proof (induction kw arbitrary: t)
  case Nil
  show ?case by simp
next
  case (Cons k ks)
  show ?case by (cases k) (simp_all add: Cons.IH completed_at_arg_def split: option.splits)
qed

lemma edit_task_settable:
  assumes "\<not> list_ex binds_parameter kw" and "list_all settable kw" and "get_task i s = Some t"
  shows "edit_task i kw s =
           Ok (True, save (if map_of (tasks s) i \<noteq> None
                           then s\<lparr>tasks := AList.update i (foldl set_kwarg t (attrs_of kw)) (tasks s)\<rparr>
                           else s\<lparr>completed := AList.update i (foldl set_kwarg t (attrs_of kw)) (completed s)\<rparr>))"
  using assms by (simp add: edit_task_def set_keywords_settable obind_def)

lemma edit_task_found:
  assumes "\<not> list_ex binds_parameter kw" and "list_all settable kw" and "get_task i s = Some t"
  shows "\<exists>s'. edit_task i kw s = Ok (True, s')
           \<and> get_task i s' = Some (foldl set_kwarg t (attrs_of kw))
           \<and> (\<forall>j. j \<noteq> i \<longrightarrow> get_task j s' = get_task j s)
           \<and> map fst (tasks s') = map fst (tasks s)
           \<and> map fst (completed s') = map fst (completed s)
           \<and> next_id s' = next_id s \<and> xp s' = xp s \<and> level s' = level s
           \<and> achievements s' = achievements s"
  unfolding edit_task_settable [OF assms] using assms(3)
  by (auto simp: get_task_def save_def update_conv' keys_update_present split: option.splits)

text \<open>
  C4, as the code has it. A call with a keyword \<open>self\<close> or \<open>task_id\<close> raises
  \<open>TypeError\<close>. Any other call returns \<open>False\<close> and changes nothing when the id resolves
  to no task of either collection. When it resolves to a task and every keyword names a
  data attribute (with a value of its type or \<open>None\<close>) or no attribute, the call returns
  \<open>True\<close>, and each of the eight fields of the task, \<open>id\<close>, \<open>created_at\<close> and
  \<open>completed_at\<close> among them, has the value of the last keyword that names it with a value
  other than \<open>None\<close>, and its own value when there is no such keyword. So when the
  keywords name only \<open>title\<close>, \<open>category\<close>, \<open>due_date\<close>, \<open>priority\<close> and \<open>notes\<close>, the
  fields \<open>id\<close>, \<open>created_at\<close> and \<open>completed_at\<close> keep their values, and when all values
  are \<open>None\<close> the task is as it was. No other task, no key of either collection and no
  counter of the planner changes.
\<close>

theorem edit_task_effect:
  "(list_ex binds_parameter kw \<longrightarrow> edit_task i kw s = Raises TypeError)
   \<and> (\<not> list_ex binds_parameter kw \<and> get_task i s = None \<longrightarrow> edit_task i kw s = Ok (False, s))
   \<and> (\<forall>t. \<not> list_ex binds_parameter kw \<and> list_all settable kw \<and> get_task i s = Some t \<longrightarrow>
        (\<exists>s' t'. edit_task i kw s = Ok (True, s') \<and> get_task i s' = Some t'
           \<and> id_field t' =
               (case last_value id_arg (attrs_of kw) of None \<Rightarrow> id_field t | Some x \<Rightarrow> Some x)
           \<and> title t' =
               (case last_value title_arg (attrs_of kw) of None \<Rightarrow> title t | Some x \<Rightarrow> x)
           \<and> category t' =
               (case last_value category_arg (attrs_of kw) of None \<Rightarrow> category t | Some x \<Rightarrow> x)
           \<and> due_date t' =
               (case last_value due_date_arg (attrs_of kw) of None \<Rightarrow> due_date t | Some x \<Rightarrow> Some x)
           \<and> priority t' =
               (case last_value priority_arg (attrs_of kw) of None \<Rightarrow> priority t | Some x \<Rightarrow> x)
           \<and> notes_field t' =
               (case last_value notes_arg (attrs_of kw) of None \<Rightarrow> notes_field t | Some x \<Rightarrow> x)
           \<and> created_at t' =
               (case last_value created_at_arg (attrs_of kw) of None \<Rightarrow> created_at t | Some x \<Rightarrow> x)
           \<and> completed_at t' =
               (case last_value completed_at_arg (attrs_of kw) of
                  None \<Rightarrow> completed_at t | Some x \<Rightarrow> Some x)
           \<and> (list_all mutable_kwarg (attrs_of kw) \<longrightarrow>
                id_field t' = id_field t \<and> created_at t' = created_at t
                \<and> completed_at t' = completed_at t)
           \<and> (list_all null_kwarg (attrs_of kw) \<longrightarrow> t' = t)
           \<and> (\<forall>j. j \<noteq> i \<longrightarrow> get_task j s' = get_task j s)
           \<and> map fst (tasks s') = map fst (tasks s)
           \<and> map fst (completed s') = map fst (completed s)
           \<and> next_id s' = next_id s \<and> xp s' = xp s \<and> level s' = level s
           \<and> achievements s' = achievements s))"
proof (intro conjI allI impI)
  assume "list_ex binds_parameter kw"
  then show "edit_task i kw s = Raises TypeError" by (simp add: edit_task_def)
next
  assume "\<not> list_ex binds_parameter kw \<and> get_task i s = None"
  then show "edit_task i kw s = Ok (False, s)" by (simp add: edit_task_def)
next
  fix t
  assume a: "\<not> list_ex binds_parameter kw \<and> list_all settable kw \<and> get_task i s = Some t"
  then obtain s' where s': "edit_task i kw s = Ok (True, s')"
      "get_task i s' = Some (foldl set_kwarg t (attrs_of kw))"
      "\<forall>j. j \<noteq> i \<longrightarrow> get_task j s' = get_task j s"
      "map fst (tasks s') = map fst (tasks s)" "map fst (completed s') = map fst (completed s)"
      "next_id s' = next_id s" "xp s' = xp s" "level s' = level s"
      "achievements s' = achievements s"
    using edit_task_found [of kw i s t] by blast
  let ?t' = "foldl set_kwarg t (attrs_of kw)"
  have m: "list_all mutable_kwarg (attrs_of kw) \<longrightarrow>
      id_field ?t' = id_field t \<and> created_at ?t' = created_at t \<and> completed_at ?t' = completed_at t"
    using foldl_set_kwarg_mutable [of "attrs_of kw" t] by simp
  have n: "list_all null_kwarg (attrs_of kw) \<longrightarrow> ?t' = t"
    using foldl_set_kwarg_null [of "attrs_of kw" t] by simp
  show "\<exists>s' t'. edit_task i kw s = Ok (True, s') \<and> get_task i s' = Some t'
           \<and> id_field t' =
               (case last_value id_arg (attrs_of kw) of None \<Rightarrow> id_field t | Some x \<Rightarrow> Some x)
           \<and> title t' =
               (case last_value title_arg (attrs_of kw) of None \<Rightarrow> title t | Some x \<Rightarrow> x)
           \<and> category t' =
               (case last_value category_arg (attrs_of kw) of None \<Rightarrow> category t | Some x \<Rightarrow> x)
           \<and> due_date t' =
               (case last_value due_date_arg (attrs_of kw) of None \<Rightarrow> due_date t | Some x \<Rightarrow> Some x)
           \<and> priority t' =
               (case last_value priority_arg (attrs_of kw) of None \<Rightarrow> priority t | Some x \<Rightarrow> x)
           \<and> notes_field t' =
               (case last_value notes_arg (attrs_of kw) of None \<Rightarrow> notes_field t | Some x \<Rightarrow> x)
           \<and> created_at t' =
               (case last_value created_at_arg (attrs_of kw) of None \<Rightarrow> created_at t | Some x \<Rightarrow> x)
           \<and> completed_at t' =
               (case last_value completed_at_arg (attrs_of kw) of
                  None \<Rightarrow> completed_at t | Some x \<Rightarrow> Some x)
           \<and> (list_all mutable_kwarg (attrs_of kw) \<longrightarrow>
                id_field t' = id_field t \<and> created_at t' = created_at t
                \<and> completed_at t' = completed_at t)
           \<and> (list_all null_kwarg (attrs_of kw) \<longrightarrow> t' = t)
           \<and> (\<forall>j. j \<noteq> i \<longrightarrow> get_task j s' = get_task j s)
           \<and> map fst (tasks s') = map fst (tasks s)
           \<and> map fst (completed s') = map fst (completed s)
           \<and> next_id s' = next_id s \<and> xp s' = xp s \<and> level s' = level s
           \<and> achievements s' = achievements s"
    apply (rule exI [of _ s'])
    apply (rule exI [of _ ?t'])
    apply (intro conjI)
                     apply (rule s'(1))
                    apply (rule s'(2))
                   apply (rule foldl_set_kwarg_id)
                  apply (rule foldl_set_kwarg_title)
                 apply (rule foldl_set_kwarg_category)
                apply (rule foldl_set_kwarg_due_date)
               apply (rule foldl_set_kwarg_priority)
              apply (rule foldl_set_kwarg_notes)
             apply (rule foldl_set_kwarg_created_at)
            apply (rule foldl_set_kwarg_completed_at)
           apply (rule m)
          apply (rule n)
         apply (rule s'(3))
        apply (rule s'(4))
       apply (rule s'(5))
      apply (rule s'(6))
     apply (rule s'(7))
    apply (rule s'(8))
    apply (rule s'(9))
    done
qed

theorem edit_task_effect_witness:
  "list_ex binds_parameter [Attr (Kw_title (Some ''Read Ch.2'')), Name ''task_id'']
   \<and> edit_task 1 [Attr (Kw_title (Some ''Read Ch.2'')), Name ''task_id''] one_pending
       = Raises TypeError
   \<and> \<not> list_ex binds_parameter [Attr (Kw_title (Some ''Read Ch.2''))]
   \<and> get_task 5 one_pending = None
   \<and> edit_task 5 [Attr (Kw_title (Some ''Read Ch.2''))] one_pending = Ok (False, one_pending)
   \<and> \<not> list_ex binds_parameter
         [Attr (Kw_title (Some ''Read Ch.2'')), Attr (Kw_priority None), Name ''colour'']
   \<and> list_all settable
         [Attr (Kw_title (Some ''Read Ch.2'')), Attr (Kw_priority None), Name ''colour'']
   \<and> get_task 1 one_pending = Some (snd (hd (tasks one_pending)))
   \<and> (\<exists>s' t'. edit_task 1
          [Attr (Kw_title (Some ''Read Ch.2'')), Attr (Kw_priority None), Name ''colour'']
          one_pending = Ok (True, s')
        \<and> get_task 1 s' = Some t' \<and> id_field t' = Some 1 \<and> title t' = ''Read Ch.2''
        \<and> category t' = ''General'' \<and> due_date t' = None \<and> priority t' = 3
        \<and> notes_field t' = [] \<and> created_at t' = ''2024-01-01T09:00:00''
        \<and> completed_at t' = None
        \<and> map fst (tasks s') = [1] \<and> map fst (completed s') = [])"
proof -
  have b: "list_ex binds_parameter [Attr (Kw_title (Some ''Read Ch.2'')), Name ''task_id'']"
    by (simp add: binds_parameter_def)
  have c: "\<not> list_ex binds_parameter [Attr (Kw_title (Some ''Read Ch.2''))]"
    by (simp add: binds_parameter_def)
  have d: "\<not> list_ex binds_parameter
         [Attr (Kw_title (Some ''Read Ch.2'')), Attr (Kw_priority None), Name ''colour'']"
    by (simp add: binds_parameter_def)
  have e: "list_all settable
         [Attr (Kw_title (Some ''Read Ch.2'')), Attr (Kw_priority None), Name ''colour'']"
    by (simp add: settable_def may_be_attribute_def)
  have g: "get_task 1 one_pending = Some (snd (hd (tasks one_pending)))"
    by (simp add: get_task_def one_pending_fields)
  have g5: "get_task 5 one_pending = None"
    by (simp add: get_task_def one_pending_fields)
  show ?thesis
    using edit_task_effect [of "[Attr (Kw_title (Some ''Read Ch.2'')), Name ''task_id'']" 1 one_pending]
      edit_task_effect [of "[Attr (Kw_title (Some ''Read Ch.2''))]" 5 one_pending]
      edit_task_effect [of "[Attr (Kw_title (Some ''Read Ch.2'')), Attr (Kw_priority None), Name ''colour'']"
        1 one_pending] b c d e g g5
    apply (simp add: one_pending_fields id_arg_def title_arg_def category_arg_def due_date_arg_def
        priority_arg_def notes_arg_def created_at_arg_def completed_at_arg_def)
    apply (elim exE conjE)
    apply (rule exI, rule conjI, assumption, rule exI, intro conjI)
              apply assumption+
    done
qed

text \<open>
  C4 as the specification states it fails: \<open>edit_task\<close> has no list of fields that may
  change, it sets every attribute that the task has. The call
  \<open>edit_task(1, id=99, created_at=..., completed_at=...)\<close> changes all three fields.
\<close>

theorem edit_task_id_counterexample:
  "map (\<lambda>p. (id_field (snd p), created_at (snd p), completed_at (snd p))) (tasks one_pending)
       = [(Some 1, ''2024-01-01T09:00:00'', None)]
   \<and> outcome_map (\<lambda>r. (fst r,
          map (\<lambda>p. (id_field (snd p), created_at (snd p), completed_at (snd p))) (tasks (snd r))))
        (edit_task 1 [Attr (Kw_id (Some 99)), Attr (Kw_created_at (Some ''1999-01-01T00:00:00'')),
                      Attr (Kw_completed_at (Some ''1999-01-02T00:00:00''))] one_pending)
       = Ok (True, [(Some 99, ''1999-01-01T00:00:00'', Some ''1999-01-02T00:00:00'')])"
  by (simp add: edit_task_def binds_parameter_def obind_def outcome_map_def get_task_def
      one_pending_fields)

subsection \<open>Searching\<close>

lemma decode_ascii: "is_ascii s \<Longrightarrow> decode s = Some (map of_char s)"
  by (induction s rule: decode.induct) (simp_all add: is_ascii_def)

lemma lower_from_ascii: "list_all (\<lambda>n. n < 128) ns \<Longrightarrow> lower_from pre ns = map lower_cp ns"
  by (induction ns arbitrary: pre) simp_all

lemma lower_cp_ascii: "n < 128 \<Longrightarrow> lower_cp n < 128"
  by (simp add: lower_cp_def)

lemma encode_ascii: "list_all (\<lambda>n. n < 128) ns \<Longrightarrow> encode ns = map char_of ns"
  by (induction ns) (simp_all add: encode_def encode1_def)

lemma lower_ascii_text:
  assumes "is_ascii s"
  shows "lower s = Ok (map lower_ascii s)"
proof -
  let ?ns = "map of_char s :: nat list"
  from assms have a: "list_all (\<lambda>n. n < 128) ?ns" by (simp add: is_ascii_def list_all_iff)
  then have e: "list_all embedded_cp ?ns" by (simp add: embedded_cp_def list_all_iff)
  from a have l: "list_all (\<lambda>n. n < 128) (map lower_cp ?ns)"
    by (simp add: list_all_iff lower_cp_ascii)
  have "encode (lower_from [] ?ns) = map char_of (map lower_cp ?ns)"
    using a l by (simp add: lower_from_ascii encode_ascii)
  then show ?thesis
    using e by (simp add: lower_def decode_ascii [OF assms] lower_ascii_def comp_def)
qed

lemma lower_ascii_eq:
  assumes "(of_char c :: nat) < 128" "(of_char d :: nat) < 128"
  shows "(lower_ascii c = lower_ascii d) = same_letter c d"
proof -
  have "(lower_ascii c = lower_ascii d) =
      (lower_cp (of_char c) mod 256 = lower_cp (of_char d) mod 256)"
    by (simp add: lower_ascii_def char_of_eq_iff take_bit_eq_mod)
  also have "\<dots> = (lower_cp (of_char c) = lower_cp (of_char d))"
    using lower_cp_ascii [OF assms(1)] lower_cp_ascii [OF assms(2)] by simp
  also have "\<dots> = same_letter c d"
  proof -
    have inj: "(c = d) = ((of_char c :: nat) = of_char d)"
      by (metis char_of_char)
    have "\<And>m n :: nat. m < 128 \<Longrightarrow> n < 128 \<Longrightarrow>
        ((if 65 \<le> m \<and> m \<le> 90 \<or> 913 \<le> m \<and> m \<le> 937 then m + 32 else m) =
         (if 65 \<le> n \<and> n \<le> 90 \<or> 913 \<le> n \<and> n \<le> 937 then n + 32 else n)) =
        (m = n \<or> ((65 \<le> m \<and> m \<le> 90) \<and> n = m + 32) \<or> ((65 \<le> n \<and> n \<le> 90) \<and> m = n + 32))"
      by (simp split: if_splits) arith
    from this [OF assms] show ?thesis
      unfolding same_letter_def is_upper_def lower_cp_def inj .
  qed
  finally show ?thesis .
qed

lemma map_eq_list_all2: "(map f xs = map f ys) = list_all2 (\<lambda>x y. f x = f y) xs ys"
proof (induction xs arbitrary: ys)
  case Nil
  show ?case by auto
next
  case (Cons x xs)
  show ?case by (cases ys) (simp_all add: Cons.IH)
qed

lemma sublist_lower_ascii:
  assumes "is_ascii keyword" "is_ascii text"
  shows "sublist (map lower_ascii keyword) (map lower_ascii text) = ci_contains keyword text"
proof -
  have eq: "\<And>u. set u \<subseteq> set text \<Longrightarrow>
      (map lower_ascii u = map lower_ascii keyword) = list_all2 same_letter u keyword"
  proof -
    fix u assume u: "set u \<subseteq> set text"
    have m: "\<And>x y. x \<in> set u \<Longrightarrow> y \<in> set keyword \<Longrightarrow>
        (lower_ascii x = lower_ascii y) = same_letter x y"
    proof -
      fix x y assume "x \<in> set u" "y \<in> set keyword"
      with u assms have "(of_char x :: nat) < 128" "(of_char y :: nat) < 128"
        by (auto simp: is_ascii_def list_all_iff)
      then show "(lower_ascii x = lower_ascii y) = same_letter x y" by (rule lower_ascii_eq)
    qed
    have "list_all2 (\<lambda>x y. lower_ascii x = lower_ascii y) u keyword = list_all2 same_letter u keyword"
      using m by (auto simp: list_all2_conv_all_nth)
    then show "(map lower_ascii u = map lower_ascii keyword) = list_all2 same_letter u keyword"
      by (simp add: map_eq_list_all2)
  qed
  show ?thesis
  proof
    assume "sublist (map lower_ascii keyword) (map lower_ascii text)"
    then obtain ps ss where "map lower_ascii text = ps @ (map lower_ascii keyword @ ss)"
      by (auto simp: sublist_def)
    then obtain a r where a: "text = a @ r"
      and r: "map lower_ascii keyword @ ss = map lower_ascii r"
      unfolding map_eq_append_conv by blast
    from r obtain u b where u: "r = u @ b" "map lower_ascii keyword = map lower_ascii u"
      unfolding append_eq_map_conv by blast
    have "set u \<subseteq> set text" using a u(1) by auto
    from eq [OF this] u(2) have "list_all2 same_letter u keyword" by simp
    with a u(1) show "ci_contains keyword text" unfolding ci_contains_def by blast
  next
    assume "ci_contains keyword text"
    then obtain ps u ss where t: "text = ps @ u @ ss" and l: "list_all2 same_letter u keyword"
      by (auto simp: ci_contains_def)
    from t have "set u \<subseteq> set text" by auto
    from eq [OF this] l have "map lower_ascii u = map lower_ascii keyword" by simp
    with t have "map lower_ascii text = map lower_ascii ps @ map lower_ascii keyword @ map lower_ascii ss"
      by simp
    then show "sublist (map lower_ascii keyword) (map lower_ascii text)"
      unfolding sublist_def by blast
  qed
qed

lemma contains_lower_ascii:
  "is_ascii keyword \<Longrightarrow> is_ascii text \<Longrightarrow>
   contains_lower (map lower_ascii keyword) text = Ok (ci_contains keyword text)"
  by (simp add: contains_lower_def lower_ascii_text obind_def sublist_lower_ascii)

lemma search_match_ascii:
  "is_ascii keyword \<Longrightarrow> ascii_fields p \<Longrightarrow>
   search_match (map lower_ascii keyword) p = Ok (spec_match keyword p)"
  by (simp add: search_match_def ascii_fields_def contains_lower_ascii obind_def spec_match_def)

lemma search_in_ascii:
  "is_ascii keyword \<Longrightarrow> list_all ascii_fields ps \<Longrightarrow>
   search_in (map lower_ascii keyword) ps = Ok (filter (spec_match keyword) ps)"
  by (induction ps) (simp_all add: search_match_ascii obind_def)

lemma one_greek_tasks:
  "tasks one_greek =
     [(1, \<lparr>id_field = Some 1, title = odos, category = ''General'', due_date = None,
           priority = 3, notes_field = [], created_at = ''2024-01-01T09:00:00'',
           completed_at = None\<rparr>)]"
  "completed one_greek = []"
  by (simp_all add: one_greek_def fresh_def create_default_file_def add_task_def Let_def
      Task_init_def)

text \<open>
  C9, as the code has it. When the keyword and the title, the notes and the category of
  every task are ASCII text, \<open>search_tasks\<close> returns exactly the pairs of \<open>tasks\<close> and of
  \<open>completed\<close> (the pending ones first, each collection in its order) whose title, notes or
  category contains the keyword as a substring up to the case of the letters \<open>A\<close>..\<open>Z\<close>.
\<close>

theorem search_tasks_exact:
  assumes "is_ascii keyword" and "list_all ascii_fields (tasks s @ completed s)"
  shows "search_tasks keyword s =
           Ok (filter (spec_match keyword) (tasks s) @ filter (spec_match keyword) (completed s))"
  using assms
  by (simp add: search_tasks_def lower_ascii_text obind_def search_in_ascii)

theorem search_tasks_exact_witness:
  "is_ascii ''READ'' \<and> list_all ascii_fields (tasks one_pending @ completed one_pending)
   \<and> spec_match ''READ'' (hd (tasks one_pending))
   \<and> search_tasks ''READ'' one_pending = Ok (tasks one_pending)"
proof -
  have a: "is_ascii ''READ''" by code_simp
  have b: "is_ascii ''Read Ch.1''" "is_ascii ''General''" "is_ascii []" by code_simp+
  have f: "list_all ascii_fields (tasks one_pending @ completed one_pending)"
    using b by (simp add: ascii_fields_def one_pending_fields)
  have l: "list_all2 same_letter ''Read'' ''READ''" by code_simp
  have "''Read Ch.1'' = [] @ ''Read'' @ '' Ch.1''" by simp
  then have "ci_contains ''READ'' ''Read Ch.1''"
    unfolding ci_contains_def using l by blast
  then have m: "spec_match ''READ'' (hd (tasks one_pending))"
    by (simp add: spec_match_def one_pending_fields)
  show ?thesis
    using search_tasks_exact [OF a f] a f m by (simp add: one_pending_fields)
qed

text \<open>
  Outside ASCII the search is not a substring match up to case: \<open>lower\<close> turns a capital
  sigma at the end of a word into the final sigma, and the keyword of the one letter capital
  sigma into the other small sigma. The title of the task of \<open>one_greek\<close> contains the
  keyword as it is written, and the search for it returns nothing.
\<close>

theorem search_final_sigma_counterexample:
  "sublist capital_sigma (title (snd (hd (tasks one_greek))))
   \<and> spec_match capital_sigma (hd (tasks one_greek))
   \<and> lower capital_sigma = Ok [CHR 0xCF, CHR 0x83]
   \<and> lower odos = Ok [CHR 0xCE, CHR 0xBF, CHR 0xCE, CHR 0xB4, CHR 0xCE, CHR 0xBF, CHR 0xCF, CHR 0x82]
   \<and> search_tasks capital_sigma one_greek = Ok []"
proof -
  have k: "lower capital_sigma = Ok [CHR 0xCF, CHR 0x83]" by code_simp
  have t: "lower odos = Ok [CHR 0xCE, CHR 0xBF, CHR 0xCE, CHR 0xB4, CHR 0xCE, CHR 0xBF, CHR 0xCF, CHR 0x82]"
    by code_simp
  have e: "lower [] = Ok []" "lower ''General'' = Ok ''general''" by code_simp+
  have o: "odos = [CHR 0xCE, CHR 0x9F, CHR 0xCE, CHR 0x94, CHR 0xCE, CHR 0x9F] @ capital_sigma @ []"
    by (simp add: odos_def capital_sigma_def)
  then have v: "sublist capital_sigma odos" unfolding sublist_def by blast
  have "list_all2 same_letter capital_sigma capital_sigma"
    by (simp add: same_letter_def list_all2_same)
  with o have "ci_contains capital_sigma odos" unfolding ci_contains_def by blast
  then have m: "spec_match capital_sigma (hd (tasks one_greek))"
    by (simp add: spec_match_def one_greek_tasks)
  have n1: "\<not> sublist [CHR 0xCF, CHR 0x83]
      [CHR 0xCE, CHR 0xBF, CHR 0xCE, CHR 0xB4, CHR 0xCE, CHR 0xBF, CHR 0xCF, CHR 0x82]"
    by (simp add: sublist_Cons_right)
  have n2: "\<not> sublist [CHR 0xCF, CHR 0x83] ''general''"
    by (simp add: sublist_Cons_right)
  have "search_tasks capital_sigma one_greek = Ok []"
    using n1 n2
    by (simp add: search_tasks_def k obind_def one_greek_tasks search_match_def
        contains_lower_def t e)
  with v m k t show ?thesis by (simp add: one_greek_tasks)
qed

subsection \<open>Listing\<close>






lemma num_snoc: "num (ds @ [c]) = 10 * num ds + digit_val c"
  by (simp add: num_def)

















subsection \<open>Achievements\<close>

lemma unlock_set: "set (unlock c name a) = set a \<union> {x. x = name \<and> c}"
  by (auto simp: unlock_def)

lemma check_achievements_set:
  "set (achievements (check_achievements_on_completion s)) =
     set (achievements s) \<union> unlocked (length (completed s)) (level s)"
proof -
  have "set (achievements (check_achievements_on_completion s)) =
     set (achievements s) \<union> {x. x = ''First Task Done'' \<and> 1 \<le> length (completed s)}
       \<union> {x. x = ''Getting Serious'' \<and> 5 \<le> length (completed s)}
       \<union> {x. x = ''Study Machine'' \<and> 10 \<le> length (completed s)}
       \<union> {x. x = ''Legendary Studier'' \<and> 25 \<le> length (completed s)}
       \<union> {x. x = ''Level 2 Achieved'' \<and> 2 \<le> level s}
       \<union> {x. x = ''Level 5 Achieved'' \<and> 5 \<le> level s}"
    by (simp only: check_achievements_on_completion_def Let_def milestones_def foldl.simps
        prod.case) (simp add: unlock_set)
  also have "\<dots> = set (achievements s) \<union> unlocked (length (completed s)) (level s)"
    by (simp only: unlocked_def Un_assoc)
  finally show ?thesis .
qed

lemma unlocked_milestones:
  "(''First Task Done'' \<in> unlocked n l) = (1 \<le> n)"
  "(''Getting Serious'' \<in> unlocked n l) = (5 \<le> n)"
  "(''Study Machine'' \<in> unlocked n l) = (10 \<le> n)"
  "(''Legendary Studier'' \<in> unlocked n l) = (25 \<le> n)"
  by (simp_all add: unlocked_def)

lemma complete_task_achievements:
  assumes "map_of (tasks s) i = Some t"
  shows "set (achievements (snd (complete_task now i s))) =
           set (achievements s)
           \<union> unlocked (length (completed (snd (complete_task now i s))))
               (level (snd (complete_task now i s)))"
  using assms
  by (simp add: complete_task_def Let_def check_achievements_set)

lemma step_achievements:
  "set (achievements (snd (step c s))) =
     set (achievements s) \<union>
       (case c of
          Complete now i \<Rightarrow>
            (if map_of (tasks s) i = None then {}
             else unlocked (length (completed (snd (step c s)))) (level (snd (step c s))))
        | _ \<Rightarrow> {})"
proof (cases c)
  case (Complete now i)
  then show ?thesis
    by (cases "map_of (tasks s) i") (simp_all add: complete_task_missing complete_task_achievements)
qed (simp_all add: add_task_fields delete_task_fields edit_fields_frame)

lemma length_update_le: "length (AList.update k v xs) \<le> Suc (length xs)"
  by (induction xs) auto

lemma length_update_ge: "length xs \<le> length (AList.update k v xs)"
  by (induction xs) auto

lemma length_update_present: "map_of xs k \<noteq> None \<Longrightarrow> length (AList.update k v xs) = length xs"
  by (induction xs) auto

lemma length_delete_le: "length (AList.delete k xs) \<le> length xs"
  by (induction xs) auto

lemma step_completed_length:
  "length (completed (snd (step c s))) \<le>
     (case c of Complete now i \<Rightarrow> Suc (length (completed s)) | _ \<Rightarrow> length (completed s))"
proof (cases c)
  case (Complete now i)
  then show ?thesis
    by (cases "map_of (tasks s) i")
       (simp_all add: complete_task_missing complete_task_found length_update_le)
next
  case (Delete i)
  then show ?thesis
    by (simp add: delete_task_def length_delete_le split: option.splits)
next
  case (Edit i kw)
  then show ?thesis
    by (auto simp: edit_fields_unfold Let_def get_task_def length_update_present split: option.splits)
qed (simp_all add: add_task_fields)

lemma step_completed_grows:
  "\<not> is_Delete c \<Longrightarrow> length (completed s) \<le> length (completed (snd (step c s)))"
proof (cases c)
  case (Complete now i)
  then show ?thesis
    by (cases "map_of (tasks s) i")
       (simp_all add: complete_task_missing complete_task_found length_update_ge)
next
  case (Edit i kw)
  then show ?thesis
    by (auto simp: edit_fields_unfold Let_def get_task_def length_update_present split: option.splits)
qed (simp_all add: add_task_fields is_Delete_def)

lemma step_ms_inv:
  assumes "ms_inv s h"
  shows "ms_inv (snd (step c s)) (max h (length (completed (snd (step c s)))))"
proof (cases "\<exists>now i. c = Complete now i \<and> map_of (tasks s) i \<noteq> None")
  case True
  then obtain now i where c: "c = Complete now i" and f: "map_of (tasks s) i \<noteq> None" by blast
  let ?s' = "snd (step c s)"
  have a: "set (achievements ?s') =
      set (achievements s) \<union> unlocked (length (completed ?s')) (level ?s')"
    using step_achievements [of c s] c f by simp
  show ?thesis
    using assms unfolding ms_inv_def a by (auto simp: unlocked_milestones)
next
  case False
  let ?s' = "snd (step c s)"
  have a: "set (achievements ?s') = set (achievements s)"
    using step_achievements [of c s] False by (cases c) auto
  have l: "length (completed ?s') \<le> length (completed s)"
  proof (cases c)
    case (Complete now i)
    with False have "map_of (tasks s) i = None" by simp
    with Complete show ?thesis by (simp add: complete_task_missing)
  qed (use step_completed_length [of c s] in simp_all)
  then have "max h (length (completed ?s')) = h" using assms by (simp add: ms_inv_def)
  with assms a l show ?thesis by (simp add: ms_inv_def)
qed

lemma peak_ge: "length (completed s) \<le> peak cs s"
  by (cases cs) simp_all

lemma run_ms_inv:
  "ms_inv s h \<Longrightarrow> ms_inv (snd (run cs s)) (max h (peak cs s))"
proof (induction cs arbitrary: s h)
  case Nil
  then show ?case by (simp add: ms_inv_def max_absorb1)
next
  case (Cons c cs)
  let ?s1 = "snd (step c s)"
  have "ms_inv ?s1 (max h (length (completed ?s1)))" using Cons.prems by (rule step_ms_inv)
  then have "ms_inv (snd (run cs ?s1)) (max (max h (length (completed ?s1))) (peak cs ?s1))"
    by (rule Cons.IH)
  moreover have "length (completed s) \<le> h" using Cons.prems by (simp add: ms_inv_def)
  then have "max (max h (length (completed ?s1))) (peak cs ?s1) = max h (peak (c # cs) s)"
    using peak_ge [of ?s1 cs] unfolding peak.simps by linarith
  ultimately show ?case unfolding run_Cons by simp
qed

lemma ms_inv_fresh: "ms_inv fresh 0"
  by (simp add: ms_inv_def fresh_def create_default_file_def)

lemma peak_no_delete:
  "list_all (\<lambda>c. \<not> is_Delete c) cs \<Longrightarrow> peak cs s = length (completed (snd (run cs s)))"
proof (induction cs arbitrary: s)
  case Nil
  show ?case by simp
next
  case (Cons c cs)
  let ?s1 = "snd (step c s)"
  from Cons.prems have nd: "\<not> is_Delete c" and rest: "list_all (\<lambda>c. \<not> is_Delete c) cs" by simp_all
  have "length (completed s) \<le> length (completed ?s1)" using nd by (rule step_completed_grows)
  also have "\<dots> \<le> peak cs ?s1" by (rule peak_ge)
  finally have "peak (c # cs) s = peak cs ?s1" by simp
  then show ?case using Cons.IH [OF rest, of ?s1] unfolding run_Cons by simp
qed

lemma step_achievements_mono: "set (achievements s) \<subseteq> set (achievements (snd (step c s)))"
  using step_achievements [of c s] by blast

lemma run_achievements_mono: "set (achievements s) \<subseteq> set (achievements (snd (run cs s)))"
proof (induction cs arbitrary: s)
  case Nil
  show ?case by simp
next
  case (Cons c cs)
  have "set (achievements s) \<subseteq> set (achievements (snd (step c s)))"
    by (rule step_achievements_mono)
  also have "\<dots> \<subseteq> set (achievements (snd (run cs (snd (step c s)))))" by (rule Cons.IH)
  finally show ?case unfolding run_Cons .
qed

lemma peak_done_and_deleted:
  "peak done_and_deleted fresh = 1" "completed (snd (run done_and_deleted fresh)) = []"
  by (simp_all add: done_and_deleted_def read_ch1_def fresh_def create_default_file_def
      add_task_def complete_task_def delete_task_def Let_def Task_init_def)

text \<open>
  C5, as the code has it. In every session on a new data set, whatever calls it makes, each
  milestone name is present exactly when the number of completed tasks has reached its
  threshold at some point of the session: "First Task Done" iff the highest number reached
  is at least 1, "Getting Serious" iff at least 5, "Study Machine" iff at least 10,
  "Legendary Studier" iff at least 25. In a session without deletions the highest number
  reached is the number of completed tasks at its end. No call (a deletion included) and no
  session removes a name from the achievements.
\<close>

theorem achievements_milestones:
  "((''First Task Done'' \<in> set (achievements (snd (run cs fresh)))) = (1 \<le> peak cs fresh))
   \<and> ((''Getting Serious'' \<in> set (achievements (snd (run cs fresh)))) = (5 \<le> peak cs fresh))
   \<and> ((''Study Machine'' \<in> set (achievements (snd (run cs fresh)))) = (10 \<le> peak cs fresh))
   \<and> ((''Legendary Studier'' \<in> set (achievements (snd (run cs fresh)))) = (25 \<le> peak cs fresh))
   \<and> (list_all (\<lambda>c. \<not> is_Delete c) cs \<longrightarrow>
        peak cs fresh = length (completed (snd (run cs fresh))))
   \<and> set (achievements s) \<subseteq> set (achievements (snd (step c s)))
   \<and> set (achievements s) \<subseteq> set (achievements (snd (run ds s)))"
proof -
  have "ms_inv (snd (run cs fresh)) (max 0 (peak cs fresh))"
    using ms_inv_fresh by (rule run_ms_inv)
  then have "ms_inv (snd (run cs fresh)) (peak cs fresh)" by simp
  then show ?thesis
    using peak_no_delete [of cs fresh] step_achievements_mono [of s c]
      run_achievements_mono [of s ds]
    unfolding ms_inv_def by blast
qed

theorem achievements_milestones_witness:
  "peak done_and_deleted fresh = 1
   \<and> completed (snd (run done_and_deleted fresh)) = []
   \<and> ''First Task Done'' \<in> set (achievements (snd (run done_and_deleted fresh)))
   \<and> ''Getting Serious'' \<notin> set (achievements (snd (run done_and_deleted fresh)))
   \<and> list_all (\<lambda>c. \<not> is_Delete c) (butlast done_and_deleted)
   \<and> peak (butlast done_and_deleted) fresh
       = length (completed (snd (run (butlast done_and_deleted) fresh)))"
proof -
  have nd: "list_all (\<lambda>c. \<not> is_Delete c) (butlast done_and_deleted)"
    by (simp add: done_and_deleted_def read_ch1_def is_Delete_def)
  show ?thesis
    using achievements_milestones [of done_and_deleted fresh Stats "[]"]
      achievements_milestones [of "butlast done_and_deleted" fresh Stats "[]"]
      nd peak_done_and_deleted
    by simp
qed

subsection \<open>Decimal text\<close>

lemma of_char_digit_char: "d < 10 \<Longrightarrow> (of_char (digit_char d) :: nat) = 48 + d"
  by (simp add: digit_char_def)

lemma is_digit_digit_char: "d < 10 \<Longrightarrow> is_digit (digit_char d)"
  by (simp add: is_digit_def of_char_digit_char)

lemma digit_val_digit_char: "d < 10 \<Longrightarrow> digit_val (digit_char d) = d"
  by (simp add: digit_val_def of_char_digit_char)

lemma is_digit_not_special:
  assumes "is_digit c"
  shows "c \<noteq> CHR ''_''" "c \<noteq> CHR ''-''" "c \<noteq> CHR ''+''" "\<not> is_space c"
  using assms by (auto simp: is_digit_def is_space_def)

lemma digits_all: "list_all is_digit (digits n) \<and> digits n \<noteq> []"
proof (induction n rule: digits.induct)
  case (1 n)
  show ?case
  proof (cases "n < 10")
    case True
    then show ?thesis by (subst (1 2) digits.simps) (simp add: is_digit_digit_char)
  next
    case False
    with 1 show ?thesis by (subst (1 2) digits.simps) (simp add: is_digit_digit_char)
  qed
qed

lemma num_digits: "num (digits n) = n"
proof (induction n rule: digits.induct)
  case (1 n)
  show ?case
  proof (cases "n < 10")
    case True
    then show ?thesis by (subst digits.simps) (simp add: num_def digit_val_digit_char)
  next
    case False
    with 1 have "num (digits (n div 10)) = n div 10" by simp
    with False show ?thesis
      by (subst digits.simps) (simp add: num_snoc digit_val_digit_char)
  qed
qed

lemma read_digits_all:
  "list_all is_digit ds \<Longrightarrow> ds \<noteq> [] \<Longrightarrow>
   read_digits acc ds = Some (foldl (\<lambda>a c. 10 * a + digit_val c) acc ds)"
proof (induction ds arbitrary: acc)
  case Nil
  then show ?case by simp
next
  case (Cons c cs)
  show ?case
  proof (cases cs)
    case Nil
    with Cons.prems show ?thesis by simp
  next
    case (Cons d ds')
    with Cons.prems have "is_digit d" by simp
    then have "d \<noteq> CHR ''_''" by (rule is_digit_not_special)
    with Cons Cons.prems Cons.IH [of "10 * acc + digit_val c"] show ?thesis by simp
  qed
qed

lemma read_digits_digits: "read_digits 0 (digits n) = Some n"
  using read_digits_all [of "digits n" 0] digits_all [of n] num_digits [of n]
  by (simp add: num_def)

lemma strip_id:
  assumes "s \<noteq> []" "\<not> is_space (hd s)" "\<not> is_space (last s)"
  shows "rev (dropWhile is_space (rev (dropWhile is_space s))) = s"
proof -
  from assms(1,2) have a: "dropWhile is_space s = s" by (cases s) simp_all
  from assms(1,3) have "dropWhile is_space (rev s) = rev s"
    by (cases "rev s") (simp_all add: last_rev [symmetric] del: last_rev)
  with a show ?thesis by simp
qed

lemma py_int_digits: "py_int (digits n) = Some (int n)"
proof -
  obtain c cs where d: "digits n = c # cs" using digits_all [of n] by (cases "digits n") auto
  with digits_all [of n] have c: "is_digit c" and l: "is_digit (last (c # cs))"
    by (auto simp: list_all_iff)
  have "rev (dropWhile is_space (rev (dropWhile is_space (c # cs)))) = c # cs"
    using c l by (intro strip_id) (simp_all add: is_digit_not_special del: last.simps)
  then show ?thesis
    using c read_digits_digits [of n] unfolding py_int_def d
    by (simp add: is_digit_not_special)
qed

lemma py_int_minus_digits: "py_int (CHR ''-'' # digits n) = Some (- int n)"
proof -
  have l: "is_digit (last (CHR ''-'' # digits n))"
    using digits_all [of n] by (auto simp: list_all_iff)
  have "rev (dropWhile is_space (rev (dropWhile is_space (CHR ''-'' # digits n)))) = CHR ''-'' # digits n"
  proof (rule strip_id)
    show "CHR ''-'' # digits n \<noteq> []" by simp
    show "\<not> is_space (hd (CHR ''-'' # digits n))" by (simp add: is_space_def)
    show "\<not> is_space (last (CHR ''-'' # digits n))" using l by (rule is_digit_not_special)
  qed
  then show ?thesis
    using read_digits_digits [of n] unfolding py_int_def by simp
qed

lemma py_int_py_str: "py_int (py_str n) = Some n"
  by (simp add: py_str_def py_int_digits py_int_minus_digits)

lemma is_ascii_digits: "is_ascii (digits n)"
  using digits_all [of n] by (auto simp: is_ascii_def is_digit_def list_all_iff)

lemma is_ascii_py_str: "is_ascii (py_str n)"
  using is_ascii_digits by (simp add: py_str_def is_ascii_def)

lemma int_of_text_py_str: "int_of_text (py_str n) = Ok n"
  by (simp add: int_of_text_def is_ascii_py_str py_int_py_str)

lemma from_dict_to_dict: "from_dict now (to_dict t) = Ok t"
  by (cases t; cases "id_field t"; cases "due_date t"; cases "completed_at t")
     (simp_all add: from_dict_def to_dict_def get_default_def obind_def int_of_json_def
       want_str_def want_opt_str_def want_opt_int_def Task_init_def json_opt_int_def
       json_opt_str_def)

subsection \<open>Saving and loading\<close>

lemma update_fresh_key: "k \<notin> fst ` set xs \<Longrightarrow> AList.update k v xs = xs @ [(k, v)]"
  by (induction xs) auto

lemma load_items_encoded:
  "distinct (map fst xs) \<Longrightarrow> fst ` set xs \<inter> fst ` set acc = {} \<Longrightarrow>
   load_items now (map (\<lambda>(tid, t). (py_str tid, to_dict t)) xs) acc = Ok (acc @ xs)"
proof (induction xs arbitrary: acc)
  case Nil
  show ?case by simp
next
  case (Cons x xs)
  obtain k t where x: "x = (k, t)" by (cases x)
  from Cons.prems x have k: "k \<notin> fst ` set acc" by auto
  from Cons.prems x have d: "distinct (map fst xs)"
    and i: "fst ` set xs \<inter> fst ` set (acc @ [(k, t)]) = {}" by auto
  from Cons.IH [OF d i] show ?case
    by (simp add: x int_of_text_py_str from_dict_to_dict obind_def update_fresh_key [OF k])
qed

lemma load_tasks_encoded: "is_dict d \<Longrightarrow> load_tasks now (tasks_json d) = Ok d"
  using load_items_encoded [of d "[]" now] by (simp add: load_tasks_def tasks_json_def is_dict_def)

lemma py_set_encoded: "distinct a \<Longrightarrow> py_set (JList (map JStr a)) = Ok a"
  by (simp add: py_set_def list_ex_iff list_all_iff is_unhashable_def is_JStr_def the_JStr_def
      comp_def)

lemma load_body_data_of:
  assumes "well_formed s"
  shows "load_body now (data_of s) s' =
           Ok (restore_ids (s'\<lparr>next_id := next_id s, xp := xp s, level := level s,
                 achievements := achievements s, tasks := tasks s, completed := completed s\<rparr>))"
  using assms
  by (simp add: load_body_def data_of_def get_default_def want_int_def obind_def well_formed_def
      py_set_encoded load_tasks_encoded)

lemma load_save:
  assumes "well_formed s"
  shows "load now (save s) = Ok (restore_ids (save s))"
proof -
  have "save s\<lparr>next_id := next_id s, xp := xp s, level := level s,
          achievements := achievements s, tasks := tasks s, completed := completed s\<rparr> = save s"
    by (simp add: save_def)
  with load_body_data_of [OF assms, of now "save s"]
  have "load_body now (data_of s) (save s) = Ok (restore_ids (save s))" by (simp only:)
  then show ?thesis
    by (simp add: load_writable read_file_def obind_def Let_def)
qed

lemma task_id_same: "id_field t = Some k \<Longrightarrow> t\<lparr>id_field := Some k\<rparr> = t"
  by (cases t) simp

lemma restore_ids_match: "ids_match s \<Longrightarrow> restore_ids s = s"
proof -
  assume m: "ids_match s"
  have i: "\<And>k t. (k, t) \<in> set (tasks s) \<union> set (completed s) \<Longrightarrow> t\<lparr>id_field := Some k\<rparr> = t"
  proof -
    fix k t assume "(k, t) \<in> set (tasks s) \<union> set (completed s)"
    with m have "id_field t = Some k" by (force simp: ids_match_def list_all_iff)
    then show "t\<lparr>id_field := Some k\<rparr> = t" by (rule task_id_same)
  qed
  have a: "map (\<lambda>(tid, t). if tid \<in> fst ` set (completed s) then (tid, t)
                else (tid, t\<lparr>id_field := Some tid\<rparr>)) (tasks s) = tasks s"
    by (rule map_idI) (auto simp: i)
  have b: "map (\<lambda>(tid, t). (tid, t\<lparr>id_field := Some tid\<rparr>)) (completed s) = completed s"
    by (rule map_idI) (auto simp: i)
  show ?thesis unfolding restore_ids_def a b by simp
qed

lemma create_default_file_fresh: "create_default_file s = fresh"
  by (simp add: create_default_file_def fresh_def save_def data_of_def)

lemma fresh_fields:
  "tasks fresh = []" "completed fresh = []" "next_id fresh = 1" "xp fresh = 0" "level fresh = 1"
  "achievements fresh = []" "disk fresh = Document (data_of fresh)"
  by (simp_all add: fresh_def create_default_file_def save_def data_of_def)

lemma load_fresh: "load now fresh = Ok fresh"
proof -
  have w: "well_formed fresh" by (simp add: well_formed_def is_dict_def fresh_fields)
  have "fresh = save fresh" by (simp add: save_def fresh_fields [symmetric])
  then have "load now fresh = Ok (restore_ids fresh)" using load_save [OF w, of now] by simp
  moreover have "restore_ids fresh = fresh"
    by (rule restore_ids_match) (simp add: ids_match_def fresh_fields)
  ultimately show ?thesis by simp
qed

lemma load_never_raises: "load now s \<noteq> Raises e"
  by (simp add: load_writable Let_def split: outcome.splits)

lemma load_body_no_title: "load_body now no_title_doc s = Raises KeyError"
  by (simp add: load_body_def no_title_doc_def get_default_def want_int_def py_set_def obind_def
      load_tasks_def int_of_text_def is_ascii_def py_int_def is_space_def is_digit_def
      digit_val_def from_dict_def)

lemma well_formed_one_pending: "well_formed one_pending"
  by (simp add: well_formed_def is_dict_def one_pending_fields)

lemma renumbered_fields:
  "tasks renumbered =
     [(1, \<lparr>id_field = Some 99, title = ''Read Ch.1'', category = ''General'', due_date = None,
           priority = 3, notes_field = [], created_at = ''2024-01-01T09:00:00'',
           completed_at = None\<rparr>)]"
  "completed renumbered = []" "achievements renumbered = []"
  by (simp_all add: renumbered_def edit_fields_unfold get_task_def Let_def one_pending_fields)

text \<open>
  C7, as the code has it. When there is no data file, when the file cannot be opened,
  decoded or parsed, or when it parses to a value on which the body of \<open>load\<close> raises,
  and the data file can be written, \<open>load\<close> returns with the fresh default state
  (\<open>next_id = 1\<close>, \<open>xp = 0\<close>, \<open>level = 1\<close>, no tasks, no completed tasks, no
  achievements), and the file holds that default state; where the file can be written
  \<open>load\<close> raises in no state and on no content of the file. When the data file cannot
  be written, the exception of the write leaves \<open>load\<close> under each of these conditions.
\<close>

theorem load_failure_starts_fresh:
  assumes "disk s = Absent \<or> (\<exists>e. disk s = Unreadable e)
           \<or> (\<exists>data e. disk s = Document data \<and> load_body now data s = Raises e)"
  shows "load_env None now s = Ok fresh
         \<and> next_id fresh = 1 \<and> xp fresh = 0 \<and> level fresh = 1
         \<and> tasks fresh = [] \<and> completed fresh = [] \<and> achievements fresh = []
         \<and> disk fresh = Document (data_of fresh)
         \<and> load_env None now' s' \<noteq> Raises e'
         \<and> load_env (Some w) now s = Raises w"
proof -
  consider (a) "disk s = Absent" | (u) e where "disk s = Unreadable e"
    | (d) data e where "disk s = Document data" "load_body now data s = Raises e"
    using assms by blast
  then have "load now s = Ok fresh \<and> load_env (Some w) now s = Raises w"
  proof cases
    case a
    have "load now s = load now fresh"
      using a by (simp add: load_writable Let_def create_default_file_fresh fresh_fields)
    then show ?thesis using a
      by (simp add: load_fresh load_env_def write_default_def obind_def)
  next
    case u
    then show ?thesis
      by (simp add: load_writable load_env_def write_default_def Let_def read_file_def obind_def
          create_default_file_fresh)
  next
    case d
    then show ?thesis
      by (simp add: load_writable load_env_def write_default_def Let_def read_file_def obind_def
          create_default_file_fresh)
  qed
  then show ?thesis
    using load_never_raises [of now' s' e'] by (simp add: fresh_fields load_def)
qed

theorem load_failure_starts_fresh_witness:
  "load_env None ''2024-01-03T08:00:00'' (one_pending\<lparr>disk := Absent\<rparr>) = Ok fresh
   \<and> load_env None ''2024-01-03T08:00:00'' (one_pending\<lparr>disk := Unreadable ValueError\<rparr>) = Ok fresh
   \<and> load_body ''2024-01-03T08:00:00'' no_title_doc (one_pending\<lparr>disk := Document no_title_doc\<rparr>)
       = Raises KeyError
   \<and> load_env None ''2024-01-03T08:00:00'' (one_pending\<lparr>disk := Document no_title_doc\<rparr>) = Ok fresh
   \<and> load_env (Some OSError) ''2024-01-03T08:00:00'' (one_pending\<lparr>disk := Document no_title_doc\<rparr>)
       = Raises OSError
   \<and> next_id fresh = 1 \<and> xp fresh = 0 \<and> level fresh = 1"
proof -
  let ?now = "''2024-01-03T08:00:00''"
  have a: "disk (one_pending\<lparr>disk := Absent\<rparr>) = Absent \<or>
      (\<exists>e. disk (one_pending\<lparr>disk := Absent\<rparr>) = Unreadable e) \<or>
      (\<exists>data e. disk (one_pending\<lparr>disk := Absent\<rparr>) = Document data
         \<and> load_body ?now data (one_pending\<lparr>disk := Absent\<rparr>) = Raises e)"
    by simp
  have u: "disk (one_pending\<lparr>disk := Unreadable ValueError\<rparr>) = Absent \<or>
      (\<exists>e. disk (one_pending\<lparr>disk := Unreadable ValueError\<rparr>) = Unreadable e) \<or>
      (\<exists>data e. disk (one_pending\<lparr>disk := Unreadable ValueError\<rparr>) = Document data
         \<and> load_body ?now data (one_pending\<lparr>disk := Unreadable ValueError\<rparr>) = Raises e)"
    by simp
  have d: "disk (one_pending\<lparr>disk := Document no_title_doc\<rparr>) = Absent \<or>
      (\<exists>e. disk (one_pending\<lparr>disk := Document no_title_doc\<rparr>) = Unreadable e) \<or>
      (\<exists>data e. disk (one_pending\<lparr>disk := Document no_title_doc\<rparr>) = Document data
         \<and> load_body ?now data (one_pending\<lparr>disk := Document no_title_doc\<rparr>) = Raises e)"
    by (simp add: load_body_no_title)
  show ?thesis
    using load_failure_starts_fresh [OF a] load_failure_starts_fresh [OF u]
      load_failure_starts_fresh [OF d, of _ _ _ OSError] load_body_no_title
    by simp
qed

text \<open>
  C7 as the specification states it fails on a storage that can be neither read nor
  written, such as a directory in the place of the data file: reading raises, the handler
  calls \<open>_create_default_file\<close>, and the exception of its \<open>save\<close> leaves \<open>load\<close>. So
  it does where there is no data file and none can be created.
\<close>

theorem load_unwritable_counterexample:
  "load_env (Some OSError) ''2024-01-03T08:00:00'' (one_pending\<lparr>disk := Unreadable OSError\<rparr>)
     = Raises OSError
   \<and> load_env (Some OSError) ''2024-01-03T08:00:00'' (one_pending\<lparr>disk := Absent\<rparr>)
     = Raises OSError"
  by (simp add: load_env_def write_default_def read_file_def obind_def)

text \<open>
  C6, as the code has it. \<open>save\<close> followed by \<open>load\<close> reproduces \<open>next_id\<close>, \<open>xp\<close>,
  \<open>level\<close>, the achievements, the keys of both collections in their order and every field
  of every task, except that \<open>load\<close> sets the \<open>id\<close> attribute of each task from its key
  (a pending task whose key is also a key of \<open>completed\<close> keeps the \<open>id\<close> it was saved
  with). Hence when the \<open>id\<close> of every task is its key, the loaded state is the saved one.
\<close>

theorem save_load_roundtrip:
  assumes "well_formed s"
  shows "load now (save s) = Ok (restore_ids (save s))
         \<and> next_id (restore_ids (save s)) = next_id s
         \<and> xp (restore_ids (save s)) = xp s
         \<and> level (restore_ids (save s)) = level s
         \<and> achievements (restore_ids (save s)) = achievements s
         \<and> disk (restore_ids (save s)) = disk (save s)
         \<and> tasks (restore_ids (save s)) =
             map (\<lambda>(tid, t). if tid \<in> fst ` set (completed s) then (tid, t)
                              else (tid, t\<lparr>id_field := Some tid\<rparr>)) (tasks s)
         \<and> completed (restore_ids (save s)) =
             map (\<lambda>(tid, t). (tid, t\<lparr>id_field := Some tid\<rparr>)) (completed s)
         \<and> (ids_match s \<longrightarrow> load now (save s) = Ok (save s))"
proof -
  have l: "load now (save s) = Ok (restore_ids (save s))" using assms by (rule load_save)
  have "ids_match s \<Longrightarrow> restore_ids (save s) = save s"
    by (rule restore_ids_match) (simp add: ids_match_def)
  with l show ?thesis by (simp add: restore_ids_def)
qed

theorem save_load_roundtrip_witness:
  "well_formed one_pending \<and> ids_match one_pending
   \<and> load ''2024-01-03T08:00:00'' (save one_pending) = Ok (save one_pending)
   \<and> tasks (save one_pending) = tasks one_pending"
proof -
  have i: "ids_match one_pending" by (simp add: ids_match_def one_pending_fields)
  have t: "tasks (save one_pending) = tasks one_pending" by simp
  from save_load_roundtrip [OF well_formed_one_pending, of "''2024-01-03T08:00:00''"] i
  have "load ''2024-01-03T08:00:00'' (save one_pending) = Ok (save one_pending)" by blast
  then show ?thesis using well_formed_one_pending i t by blast
qed

text \<open>
  C6 as the specification states it fails for a state in which the \<open>id\<close> attribute of a
  task differs from its key, such as the state after \<open>edit_task(1, id=99)\<close>: the loop
  "restore ids inside tasks" of \<open>load\<close> sets the attribute back to 1.
\<close>

theorem save_load_id_counterexample:
  "map (\<lambda>p. (fst p, id_field (snd p))) (tasks renumbered) = [(1, Some 99)]
   \<and> outcome_map (\<lambda>s. map (\<lambda>p. (fst p, id_field (snd p))) (tasks s))
        (load ''2024-01-03T08:00:00'' (save renumbered)) = Ok [(1, Some 1)]"
proof -
  have w: "well_formed renumbered"
    by (simp add: well_formed_def is_dict_def renumbered_fields)
  have "load ''2024-01-03T08:00:00'' (save renumbered) = Ok (restore_ids (save renumbered))"
    using w by (rule load_save)
  then show ?thesis
    by (simp add: outcome_map_def obind_def restore_ids_def renumbered_fields)
qed

subsection \<open>Sessions by their keys\<close>

lemma keys_update_list:
  "map fst (AList.update k v xs) = (if k \<in> set (map fst xs) then map fst xs else map fst xs @ [k])"
  by (induction xs) auto

lemma keys_delete_list: "map fst (AList.delete k xs) = removeAll k (map fst xs)"
  by (induction xs) auto

lemma length_update_list:
  "length (AList.update k v xs) = (if k \<in> set (map fst xs) then length xs else Suc (length xs))"
  by (induction xs) auto

lemma map_of_None_keys: "(map_of xs k = None) = (k \<notin> set (map fst xs))"
  by (simp add: map_of_eq_None_iff)

lemma check_achievements_earned:
  "achievements (check_achievements_on_completion s) =
     earned (length (completed s)) (level s) (achievements s)"
  by (simp add: check_achievements_on_completion_def earned_def Let_def)

lemma complete_task_ach:
  "map_of (tasks s) i = Some t \<Longrightarrow>
   achievements (snd (complete_task now i s)) =
     earned (length (completed (snd (complete_task now i s))))
       (level (snd (complete_task now i s))) (achievements s)"
  by (simp add: complete_task_def Let_def check_achievements_earned)

lemma delete_task_pending:
  "map_of (tasks s) i = Some t \<Longrightarrow>
   delete_task i s = (Some t, save (s\<lparr>tasks := AList.delete i (tasks s)\<rparr>))"
  by (simp add: delete_task_def)

lemma delete_task_done:
  "map_of (tasks s) i = None \<Longrightarrow> map_of (completed s) i = Some t \<Longrightarrow>
   delete_task i s = (Some t, save (s\<lparr>completed := AList.delete i (completed s)\<rparr>))"
  by (simp add: delete_task_def)

lemma delete_task_absent:
  "map_of (tasks s) i = None \<Longrightarrow> map_of (completed s) i = None \<Longrightarrow>
   delete_task i s = (None, save s)"
  by (simp add: delete_task_def)

lemma shape_of_step: "shape_of (snd (step c s)) = shape_step c (shape_of s)"
proof (cases c)
  case (Add now ttl cat due prio nts)
  then show ?thesis
    by (simp add: shape_of_def add_task_def Let_def keys_update_list)
next
  case (Delete i)
  show ?thesis
  proof (cases "map_of (tasks s) i")
    case (Some t)
    then have "i \<in> set (map fst (tasks s))" using map_of_None_keys [of "tasks s" i] by simp
    with Some Delete show ?thesis
      by (simp add: shape_of_def delete_task_pending keys_delete_list)
  next
    case None
    then have p: "i \<notin> set (map fst (tasks s))" by (simp add: map_of_None_keys)
    show ?thesis
    proof (cases "map_of (completed s) i")
      case (Some t)
      with None p Delete show ?thesis
        by (simp add: shape_of_def delete_task_done keys_delete_list)
    next
      case None' : None
      then have "i \<notin> set (map fst (completed s))" by (simp add: map_of_None_keys)
      with None None' p Delete show ?thesis
        by (simp add: shape_of_def delete_task_absent)
    qed
  qed
next
  case (Edit i kw)
  then show ?thesis
    by (auto simp: shape_of_def edit_fields_unfold Let_def get_task_def keys_update_present
        split: option.splits)
next
  case (Complete now i)
  show ?thesis
  proof (cases "map_of (tasks s) i")
    case None
    then have "i \<notin> set (map fst (tasks s))" by (simp add: map_of_None_keys)
    with None Complete show ?thesis by (simp add: shape_of_def complete_task_missing)
  next
    case (Some t)
    then have "i \<in> set (map fst (tasks s))" using map_of_None_keys [of "tasks s" i] by simp
    with Some Complete show ?thesis
      by (simp add: shape_of_def complete_task_found complete_task_ach keys_delete_list
          keys_update_list length_update_list Let_def)
  qed
qed (simp_all add: shape_of_def)

lemma shape_of_run: "shape_of (snd (run cs s)) = foldl (\<lambda>sh c. shape_step c sh) (shape_of s) cs"
proof (induction cs arbitrary: s)
  case Nil
  show ?case by simp
next
  case (Cons c cs)
  show ?case unfolding run_Cons by (simp add: Cons.IH shape_of_step)
qed

lemma shape_of_fresh: "shape_of fresh = ([], [], 1, 0, 1, [])"
  by (simp add: shape_of_def fresh_def create_default_file_def)

lemma count_drops_butlast:
  "shape_of (snd (run (butlast count_drops) fresh)) =
     ([6], [4, 5], 7, 100, 2, [''First Task Done'', ''Getting Serious'', ''Level 2 Achieved''])"
  by (simp only: shape_of_run shape_of_fresh)
     (simp add: count_drops_def read_ch1_def earned_def milestones_def unlock_def)

lemma count_drops_shape:
  "shape_of (snd (run count_drops fresh)) =
     ([], [4, 5, 6], 7, 120, 2, [''First Task Done'', ''Getting Serious'', ''Level 2 Achieved''])"
  by (simp only: shape_of_run shape_of_fresh)
     (simp add: count_drops_def read_ch1_def earned_def milestones_def unlock_def)

lemma run_snoc_fst:
  "fst (run (cs @ [c]) s) = fst (run cs s) @ [fst (step c (snd (run cs s)))]"
proof (induction cs arbitrary: s)
  case Nil
  show ?case by (simp split: prod.splits)
next
  case (Cons a cs)
  show ?case by (simp only: append_Cons run_Cons Cons.IH)
qed

text \<open>
  C5 as the specification states it fails once completed tasks have been deleted: a later
  \<open>complete_task\<close> reaches a number of completed tasks below a threshold whose name is
  already present. After five completions, three deletions of completed tasks and one more
  completion the planner holds 3 completed tasks and "Getting Serious".
\<close>

theorem milestone_count_counterexample:
  "last (fst (run count_drops fresh)) =
     Completed True (Info \<lparr>gained = 20, leveled_up = False, prev_xp = 100\<rparr>)
   \<and> length (completed (snd (run count_drops fresh))) = 3
   \<and> ''Getting Serious'' \<in> set (achievements (snd (run count_drops fresh)))"
proof -
  let ?s = "snd (run (butlast count_drops) fresh)"
  have cd: "count_drops = butlast count_drops @ [Complete ''2024-01-03T10:00:00'' 6]"
    by (simp add: count_drops_def)
  from count_drops_butlast have f: "map fst (tasks ?s) = [6]" "xp ?s = 100" "level ?s = 2"
    by (simp_all add: shape_of_def)
  from f(1) have "map_of (tasks ?s) 6 \<noteq> None" by (simp add: map_of_None_keys)
  then obtain t where t: "map_of (tasks ?s) 6 = Some t" by blast
  have "last (fst (run count_drops fresh)) = fst (step (Complete ''2024-01-03T10:00:00'' 6) ?s)"
    by (subst cd) (simp only: run_snoc_fst last_snoc)
  then have a: "last (fst (run count_drops fresh)) =
     Completed True (Info \<lparr>gained = 20, leveled_up = False, prev_xp = 100\<rparr>)"
    using complete_task_found(1) [OF t, of "''2024-01-03T10:00:00''"] f by simp
  from count_drops_shape have "map fst (completed (snd (run count_drops fresh))) = [4, 5, 6]"
    and b: "achievements (snd (run count_drops fresh)) =
       [''First Task Done'', ''Getting Serious'', ''Level 2 Achieved'']"
    by (simp_all add: shape_of_def)
  then have "length (map fst (completed (snd (run count_drops fresh)))) = 3" by simp
  then have c: "length (completed (snd (run count_drops fresh))) = 3" by simp
  from a b c show ?thesis by simp
qed

subsection \<open>Persistence along sessions\<close>

text \<open>
  Every call that changes the state ends with \<open>save\<close>, so in a session on a new data set
  that does not set the \<open>id\<close> attribute of a task the file always holds the state, and
  \<open>load\<close> returns the state as it is.
\<close>

lemma data_of_save: "data_of (save s) = data_of s"
  by (simp add: data_of_def)

lemma set_update_subset: "set (AList.update k v xs) \<subseteq> insert (k, v) (set xs)"
  by (induction xs) auto

lemma set_delete_subset: "set (AList.delete k xs) \<subseteq> set xs"
  by (induction xs) auto

lemma map_of_in_set: "map_of xs k = Some v \<Longrightarrow> (k, v) \<in> set xs"
  by (rule map_of_SomeD)

lemma unlock_distinct: "distinct a \<Longrightarrow> distinct (unlock c name a)"
  by (simp add: unlock_def)

lemma check_achievements_distinct:
  "distinct (achievements s) \<Longrightarrow> distinct (achievements (check_achievements_on_completion s))"
  by (simp add: check_achievements_earned earned_def milestones_def unlock_distinct)

lemma is_dict_update: "is_dict d \<Longrightarrow> is_dict (AList.update k v d)"
  by (simp add: is_dict_def distinct_update)

lemma is_dict_delete: "is_dict d \<Longrightarrow> is_dict (AList.delete k d)"
  by (simp add: is_dict_def distinct_delete)

lemma ids_ok_update:
  "list_all (\<lambda>p. id_field (snd p) = Some (fst p)) xs \<Longrightarrow> id_field v = Some k \<Longrightarrow>
   list_all (\<lambda>p. id_field (snd p) = Some (fst p)) (AList.update k v xs)"
  using set_update_subset [of k v xs] by (auto simp: list_all_iff)

lemma ids_ok_delete:
  "list_all (\<lambda>p. id_field (snd p) = Some (fst p)) xs \<Longrightarrow>
   list_all (\<lambda>p. id_field (snd p) = Some (fst p)) (AList.delete k xs)"
  using set_delete_subset [of k xs] by (auto simp: list_all_iff)

lemma ids_ok_lookup:
  "list_all (\<lambda>p. id_field (snd p) = Some (fst p)) xs \<Longrightarrow> map_of xs k = Some t \<Longrightarrow>
   id_field t = Some k"
  by (force simp: list_all_iff dest: map_of_SomeD)

lemma set_kwarg_keeps_id:
  "(case k of Kw_id _ \<Rightarrow> False | _ \<Rightarrow> True) \<Longrightarrow> id_field (set_kwarg t k) = id_field t"
  by (cases k) (simp_all split: option.splits)

lemma foldl_set_kwarg_keeps_id:
  "list_all (\<lambda>k. case k of Kw_id _ \<Rightarrow> False | _ \<Rightarrow> True) kw \<Longrightarrow>
   id_field (foldl set_kwarg t kw) = id_field t"
  by (induction kw arbitrary: t) (simp_all add: set_kwarg_keeps_id)

lemma persisted_save:
  "well_formed s \<Longrightarrow> ids_match s \<Longrightarrow> persisted (save s)"
  by (simp add: persisted_def data_of_save well_formed_def ids_match_def)

lemma step_persisted:
  assumes "persisted s" and "plain_cmd c"
  shows "persisted (snd (step c s))"
proof -
  from assms(1) have w: "is_dict (tasks s)" "is_dict (completed s)" "distinct (achievements s)"
    and it: "list_all (\<lambda>p. id_field (snd p) = Some (fst p)) (tasks s)"
    and ic: "list_all (\<lambda>p. id_field (snd p) = Some (fst p)) (completed s)"
    by (simp_all add: persisted_def well_formed_def ids_match_def)
  show ?thesis
  proof (cases c)
    case (Add now ttl cat due prio nts)
    have "persisted (save (s\<lparr>tasks := AList.update (next_id s)
        ((Task_init now ttl cat due prio nts)\<lparr>id_field := Some (next_id s)\<rparr>) (tasks s),
        next_id := next_id s + 1\<rparr>))"
      using w it ic
      by (intro persisted_save) (simp_all add: well_formed_def ids_match_def is_dict_update ids_ok_update)
    with Add show ?thesis by (simp add: add_task_def Let_def)
  next
    case (Delete i)
    have a: "persisted (save (s\<lparr>tasks := AList.delete i (tasks s)\<rparr>))"
      using w it ic
      by (intro persisted_save) (simp_all add: well_formed_def ids_match_def is_dict_delete ids_ok_delete)
    have b: "persisted (save (s\<lparr>completed := AList.delete i (completed s)\<rparr>))"
      using w it ic
      by (intro persisted_save) (simp_all add: well_formed_def ids_match_def is_dict_delete ids_ok_delete)
    have c: "persisted (save s)"
      using w it ic by (intro persisted_save) (simp_all add: well_formed_def ids_match_def)
    from Delete a b c show ?thesis by (simp add: delete_task_def split: option.splits)
  next
    case (Edit i kw)
    with assms(2) have k: "list_all (\<lambda>k. case k of Kw_id _ \<Rightarrow> False | _ \<Rightarrow> True) kw"
      by (simp add: plain_cmd_def)
    show ?thesis
    proof (cases "get_task i s")
      case None
      with Edit assms(1) show ?thesis by (simp add: edit_fields_unfold)
    next
      case (Some t)
      let ?t' = "foldl set_kwarg t kw"
      have id: "id_field ?t' = Some i"
      proof -
        from Some have "map_of (tasks s) i = Some t \<or> map_of (completed s) i = Some t"
          by (auto simp: get_task_def split: option.splits)
        then have "id_field t = Some i" using it ic ids_ok_lookup by blast
        then show ?thesis by (simp add: foldl_set_kwarg_keeps_id [OF k])
      qed
      have a: "persisted (save (s\<lparr>tasks := AList.update i ?t' (tasks s)\<rparr>))"
        using w it ic id
        by (intro persisted_save) (simp_all add: well_formed_def ids_match_def is_dict_update ids_ok_update)
      have b: "persisted (save (s\<lparr>completed := AList.update i ?t' (completed s)\<rparr>))"
        using w it ic id
        by (intro persisted_save) (simp_all add: well_formed_def ids_match_def is_dict_update ids_ok_update)
      from Edit Some a b show ?thesis by (simp add: edit_fields_unfold Let_def)
    qed
  next
    case (Complete now i)
    show ?thesis
    proof (cases "map_of (tasks s) i")
      case None
      with Complete assms(1) show ?thesis by (simp add: complete_task_missing)
    next
      case (Some t)
      from it Some have id: "id_field t = Some i" by (rule ids_ok_lookup)
      let ?s5 = "check_achievements_on_completion
        (let s3 = s\<lparr>tasks := AList.delete i (tasks s),
                   completed := AList.update i (t\<lparr>completed_at := Some now\<rparr>) (completed s),
                   xp := xp s + XP_PER_TASK\<rparr>
         in if xp s3 div XP_TO_LEVEL + 1 > level s3
            then s3\<lparr>level := xp s3 div XP_TO_LEVEL + 1\<rparr> else s3)"
      have e: "snd (complete_task now i s) = save ?s5"
        using Some by (simp add: complete_task_def Let_def)
      have "persisted (save ?s5)"
        using w it ic id
        by (intro persisted_save)
           (simp_all add: well_formed_def ids_match_def Let_def is_dict_update is_dict_delete
             ids_ok_update ids_ok_delete check_achievements_distinct)
      with Complete e show ?thesis by simp
    qed
  qed (use assms(1) in simp_all)
qed

lemma run_persisted:
  "persisted s \<Longrightarrow> list_all plain_cmd cs \<Longrightarrow> persisted (snd (run cs s))"
proof (induction cs arbitrary: s)
  case Nil
  then show ?case by simp
next
  case (Cons c cs)
  from Cons.prems have "persisted (snd (step c s))" by (simp add: step_persisted)
  with Cons.prems Cons.IH show ?case unfolding run_Cons by simp
qed

lemma persisted_fresh: "persisted fresh"
  by (simp add: persisted_def well_formed_def is_dict_def ids_match_def fresh_fields)

lemma persisted_load: "persisted s \<Longrightarrow> load now s = Ok s"
proof -
  assume p: "persisted s"
  then have e: "save s = s" by (simp add: persisted_def save_def)
  from p have "load now (save s) = Ok (restore_ids (save s))"
    by (intro load_save) (simp add: persisted_def)
  moreover from p have "restore_ids s = s" by (intro restore_ids_match) (simp add: persisted_def)
  ultimately show ?thesis by (simp add: e)
qed

lemma session_reload:
  "list_all plain_cmd cs \<Longrightarrow> load now (snd (run cs fresh)) = Ok (snd (run cs fresh))"
  by (intro persisted_load run_persisted persisted_fresh)

subsection \<open>Reachable states\<close>

lemma step_well_formed:
  assumes "well_formed s"
  shows "well_formed (snd (step c s))"
proof -
  from assms have w: "is_dict (tasks s)" "is_dict (completed s)" "distinct (achievements s)"
    by (simp_all add: well_formed_def)
  show ?thesis
  proof (cases c)
    case (Add now ttl cat due prio nts)
    with w show ?thesis by (simp add: add_task_def Let_def well_formed_def is_dict_update)
  next
    case (Delete i)
    with w show ?thesis
      by (simp add: delete_task_def well_formed_def is_dict_delete split: option.splits)
  next
    case (Edit i kw)
    with w show ?thesis
      by (simp add: edit_fields_unfold Let_def well_formed_def is_dict_update split: option.splits)
  next
    case (Complete now i)
    show ?thesis
    proof (cases "map_of (tasks s) i")
      case None
      with Complete assms show ?thesis by (simp add: complete_task_missing)
    next
      case (Some t)
      have "distinct (achievements (snd (complete_task now i s)))"
        using Some w(3) by (simp add: complete_task_def Let_def check_achievements_distinct)
      with Complete Some w show ?thesis
        by (simp add: well_formed_def complete_task_found is_dict_update is_dict_delete)
    qed
  qed (use assms in simp_all)
qed

lemma step_sound: "sound s \<Longrightarrow> sound (snd (step c s))"
  unfolding sound_def using step_level_xp step_keys_bound step_well_formed by blast

lemma step_saves:
  "snd (step c s) = s \<or> disk (snd (step c s)) = Document (data_of (snd (step c s)))"
proof (cases c)
  case (Add now ttl cat due prio nts)
  then show ?thesis by (simp add: add_task_def Let_def data_of_save)
next
  case (Delete i)
  then show ?thesis by (simp add: delete_task_def data_of_save split: option.splits)
next
  case (Edit i kw)
  then show ?thesis by (simp add: edit_fields_unfold Let_def data_of_save split: option.splits)
next
  case (Complete now i)
  then show ?thesis by (simp add: complete_task_def Let_def data_of_save split: option.splits)
qed simp_all

lemma step_session_inv:
  assumes "session_inv s"
  shows "session_inv (snd (step c s))"
proof -
  from assms have s: "sound (snd (step c s))" by (simp add: session_inv_def step_sound)
  from step_saves [of c s] show ?thesis
  proof
    assume "snd (step c s) = s"
    with assms show ?thesis by simp
  next
    assume "disk (snd (step c s)) = Document (data_of (snd (step c s)))"
    with s show ?thesis unfolding session_inv_def by blast
  qed
qed

lemma keys_of_restore_ids: "keys_of (restore_ids s) = keys_of s"
  by (force simp: keys_of_def restore_ids_def split: if_splits)

lemma is_dict_keep:
  assumes "\<And>x. fst (f x) = fst x"
  shows "is_dict (map f xs) = is_dict xs"
proof -
  have "map fst (map f xs) = map fst xs" by (induction xs) (simp_all add: assms)
  then show ?thesis unfolding is_dict_def by (simp only:)
qed

lemma well_formed_restore_ids: "well_formed (restore_ids s) = well_formed s"
proof -
  have a: "is_dict (map (\<lambda>(tid, t). if tid \<in> fst ` set (completed s) then (tid, t)
            else (tid, t\<lparr>id_field := Some tid\<rparr>)) (tasks s)) = is_dict (tasks s)"
    by (rule is_dict_keep) (simp split: prod.splits)
  have b: "is_dict (map (\<lambda>(tid, t). (tid, t\<lparr>id_field := Some tid\<rparr>)) (completed s))
      = is_dict (completed s)"
    by (rule is_dict_keep) (simp split: prod.splits)
  show ?thesis by (simp add: well_formed_def restore_ids_def a b)
qed

lemma load_session_inv:
  assumes "session_inv s" and "load now s = Ok s'"
  shows "session_inv s'"
proof -
  from assms(1) obtain s0 where d: "disk s = Document (data_of s0)" and s0: "sound s0"
    by (auto simp: session_inv_def)
  let ?r = "restore_ids (s\<lparr>next_id := next_id s0, xp := xp s0, level := level s0,
      achievements := achievements s0, tasks := tasks s0, completed := completed s0\<rparr>)"
  from s0 have "well_formed s0" by (simp add: sound_def)
  then have "load_body now (data_of s0) s = Ok ?r" by (rule load_body_data_of)
  with d have "load now s = Ok ?r" by (simp add: load_writable Let_def read_file_def obind_def)
  with assms(2) have e: "s' = ?r" by simp
  have k: "keys_of ?r = keys_of s0" by (simp add: keys_of_restore_ids) (simp add: keys_of_def)
  have w: "well_formed ?r = well_formed s0"
    by (simp add: well_formed_restore_ids) (simp add: well_formed_def)
  have f: "level ?r = level s0" "xp ?r = xp s0" "next_id ?r = next_id s0" "disk ?r = disk s"
    by (simp_all add: restore_ids_def)
  from s0 have "sound ?r" unfolding sound_def k w f by simp
  with s0 d f(4) show ?thesis unfolding e session_inv_def by auto
qed

lemma load_absent: "disk s = Absent \<Longrightarrow> load now s = Ok fresh"
proof -
  assume "disk s = Absent"
  then have "load now s = load now fresh"
    by (simp add: load_writable Let_def create_default_file_fresh fresh_fields)
  then show ?thesis by (simp add: load_fresh)
qed

text \<open>A planner that is constructed where no data file exists is in the fresh state.\<close>

lemma Planner_init_new: "Planner_init now Absent = Ok fresh"
  by (simp add: Planner_init_def load_absent)

lemma sound_fresh: "sound fresh"
  by (simp add: sound_def keys_of_def well_formed_def is_dict_def fresh_fields)

lemma reachable_session_inv: "reachable s \<Longrightarrow> session_inv s"
proof (induction rule: reachable.induct)
  case reachable_fresh
  show ?case unfolding session_inv_def using sound_fresh fresh_fields(7) by blast
next
  case (reachable_step s c)
  then show ?case by (simp add: step_session_inv)
next
  case (reachable_load s now s')
  then show ?case using load_session_inv by blast
qed

lemma reachable_level: "reachable s \<Longrightarrow> level s = xp s div 100 + 1"
  using reachable_session_inv [of s] by (simp add: session_inv_def sound_def)

lemma reachable_keys_bound: "reachable s \<Longrightarrow> \<forall>k \<in> keys_of s. k < next_id s"
  using reachable_session_inv [of s] by (simp add: session_inv_def sound_def)

text \<open>
  C1. In a reachable state, \<open>complete_task\<close> on a pending id succeeds: the task leaves
  \<open>tasks\<close> and is in \<open>completed\<close> with \<open>completed_at\<close> set to the time of the call,
  \<open>xp\<close> grows by exactly 20, and afterwards the level is \<open>xp div 100 + 1\<close>. The call
  returns \<open>True\<close> with the experience gained, whether the level rose, and the \<open>xp\<close> before
  the award.
\<close>

theorem complete_pending_task:
  assumes "reachable s" and "map_of (tasks s) i = Some t"
  shows "\<exists>s'. complete_task now i s =
            ((True, Info \<lparr>gained = 20, leveled_up = (level s < level s'), prev_xp = xp s\<rparr>), s')
          \<and> map_of (tasks s') i = None
          \<and> map_of (completed s') i = Some (t\<lparr>completed_at := Some now\<rparr>)
          \<and> xp s' = xp s + 20
          \<and> level s' = xp s' div 100 + 1"
proof -
  let ?s' = "snd (complete_task now i s)"
  have inv: "level s = xp s div 100 + 1" using assms(1) by (rule reachable_level)
  have lv: "level ?s' = xp ?s' div 100 + 1"
    using step_level_xp [OF inv, of "Complete now i"] by simp
  have up: "(level s < (xp s + 20) div 100 + 1) = (level s < level ?s')"
    using assms(2) by (simp add: complete_task_found)
  have "complete_task now i s = (fst (complete_task now i s), ?s')" by simp
  then have r: "complete_task now i s =
      ((True, Info \<lparr>gained = 20, leveled_up = (level s < level ?s'), prev_xp = xp s\<rparr>), ?s')"
    using assms(2) up by (simp add: complete_task_found)
  have a: "map_of (tasks ?s') i = None"
    using assms(2) by (simp add: complete_task_found delete_conv)
  have b: "map_of (completed ?s') i = Some (t\<lparr>completed_at := Some now\<rparr>)"
    using assms(2) by (simp add: complete_task_found update_conv)
  have c: "xp ?s' = xp s + 20" using assms(2) by (simp add: complete_task_found)
  show ?thesis using r a b c lv by blast
qed

theorem complete_pending_task_witness:
  "reachable one_pending
   \<and> map_of (tasks one_pending) 1 = Some (snd (hd (tasks one_pending)))
   \<and> (\<exists>s'. complete_task ''2024-01-02T10:00:00'' 1 one_pending =
            ((True, Info \<lparr>gained = 20, leveled_up = (level one_pending < level s'),
                          prev_xp = xp one_pending\<rparr>), s')
          \<and> map_of (tasks s') 1 = None
          \<and> map_of (completed s') 1 =
              Some ((snd (hd (tasks one_pending)))\<lparr>completed_at := Some ''2024-01-02T10:00:00''\<rparr>)
          \<and> xp s' = xp one_pending + 20
          \<and> level s' = xp s' div 100 + 1)"
proof -
  have m: "map_of (tasks one_pending) 1 = Some (snd (hd (tasks one_pending)))"
    by (simp add: one_pending_fields)
  show ?thesis
    using complete_pending_task [OF reachable_one_pending m, of "''2024-01-02T10:00:00''"]
      reachable_one_pending m by blast
qed

text \<open>
  C3. For every session (any sequence of calls, deletions included) from any state, the ids
  that the \<open>add_task\<close> calls return are strictly increasing, each is at least the
  \<open>next_id\<close> of the start and below the \<open>next_id\<close> of the end, and \<open>next_id\<close> never
  goes down. From a reachable state no returned id is the key of a task that the planner
  holds, so no id is used twice.
\<close>

theorem add_ids_increasing:
  "sorted_wrt (<) (added_ids (fst (run cs s)))
   \<and> (\<forall>i \<in> set (added_ids (fst (run cs s))). next_id s \<le> i \<and> i < next_id (snd (run cs s)))
   \<and> next_id s \<le> next_id (snd (run cs s))
   \<and> (reachable s \<longrightarrow> (\<forall>i \<in> set (added_ids (fst (run cs s))). i \<notin> keys_of s))"
  using run_ids [of cs s] reachable_keys_bound [of s] by fastforce

theorem add_ids_increasing_witness:
  "added_ids (fst (run [read_ch1, Delete 2, read_ch1] one_pending)) = [2, 3]
   \<and> reachable one_pending
   \<and> sorted_wrt (<) (added_ids (fst (run [read_ch1, Delete 2, read_ch1] one_pending)))
   \<and> next_id one_pending \<le> 2
   \<and> 3 < next_id (snd (run [read_ch1, Delete 2, read_ch1] one_pending))
   \<and> next_id one_pending \<le> next_id (snd (run [read_ch1, Delete 2, read_ch1] one_pending))
   \<and> 2 \<notin> keys_of one_pending \<and> 3 \<notin> keys_of one_pending"
proof -
  have e: "added_ids (fst (run [read_ch1, Delete 2, read_ch1] one_pending)) = [2, 3]"
    unfolding run_Cons
    by (simp add: read_ch1_def add_task_fields delete_task_fields one_pending_fields)
  have "set (added_ids (fst (run [read_ch1, Delete 2, read_ch1] one_pending))) = {2, 3}"
    unfolding e by simp
  then show ?thesis
    using add_ids_increasing [of "[read_ch1, Delete 2, read_ch1]" one_pending]
      reachable_one_pending e by blast
qed

end
